theory Spec2Isabelle
  imports Main "HOL-Library.AList"
begin

section \<open>The XML to JSON/YAML transcoder (xml\_to\_json\_yaml.py)\<close>

text \<open>
  A shallow embedding of \<^verbatim>\<open>xml_to_json_yaml.py\<close>.  A Python \<^verbatim>\<open>str\<close> is a
  list of code points; the embedding covers the strings whose code points are below 256, so
  that a code point is a \<^typ>\<open>char\<close> and a \<^verbatim>\<open>str\<close> is a \<^typ>\<open>string\<close>.
  The three character classes the program consults are written out for that range.
\<close>

subsection \<open>Character classes and string helpers of the Python library\<close>

text \<open>The regular expression class \<^verbatim>\<open>\d\<close>: the decimal digits (only 0 to 9 below 256).\<close>

definition is_decimal :: "char \<Rightarrow> bool" where
  "is_decimal c = (c \<in> set ''0123456789'')"

text \<open>
  One character of \<^verbatim>\<open>str.isdigit\<close>: the decimal digits and the superscript digits
  two, three and one (code points 0xB2, 0xB3, 0xB9).
\<close>

definition isdigit_char :: "char \<Rightarrow> bool" where
  "isdigit_char c = (is_decimal c \<or> c = CHR 0xB2 \<or> c = CHR 0xB3 \<or> c = CHR 0xB9)"

text \<open>\<^verbatim>\<open>str.isdigit\<close>: every character is a digit and there is at least one.\<close>

definition str_isdigit :: "string \<Rightarrow> bool" where
  "str_isdigit s = (s \<noteq> [] \<and> list_all isdigit_char s)"

text \<open>One character of \<^verbatim>\<open>str.isspace\<close>, which \<^verbatim>\<open>str.strip()\<close> removes.\<close>

definition isspace_char :: "char \<Rightarrow> bool" where
  "isspace_char c =
     (c \<in> {CHR 0x09, CHR 0x0A, CHR 0x0B, CHR 0x0C, CHR 0x0D, CHR 0x1C, CHR 0x1D, CHR 0x1E,
            CHR 0x1F, CHR 0x20, CHR 0x85, CHR 0xA0})"

definition str_strip :: "string \<Rightarrow> string" where
  "str_strip s = rev (dropWhile isspace_char (rev (dropWhile isspace_char s)))"

text \<open>
  \<^verbatim>\<open>str.split(sep)\<close> for a one-character separator: the loop keeps the segment read so
  far (reversed) and closes it at each separator; the result is never empty.
\<close>

fun split_acc :: "char \<Rightarrow> string \<Rightarrow> string \<Rightarrow> string list" where
  "split_acc sep cur [] = [rev cur]"
| "split_acc sep cur (c # cs) =
     (if c = sep then rev cur # split_acc sep [] cs else split_acc sep (c # cur) cs)"

definition str_split :: "string \<Rightarrow> char \<Rightarrow> string list" where
  "str_split s sep = split_acc sep [] s"

subsection \<open>The date resolver\<close>

text \<open>
  \<^verbatim>\<open>YEAR_RE = re.compile(r'(18\d{2}|19\d{2}|20\d{2})')\<close>.
  \<open>YEAR_RE_match\<close> tries the pattern at the start of the text, \<open>YEAR_RE_search\<close>
  scans the start positions from left to right and returns group 1 of the first match.
\<close>

fun YEAR_RE_match :: "string \<Rightarrow> string option" where
  "YEAR_RE_match (a # b # c # d # rest) =
     (if ([a, b] = ''18'' \<or> [a, b] = ''19'' \<or> [a, b] = ''20'') \<and> is_decimal c \<and> is_decimal d
      then Some [a, b, c, d] else None)"
| "YEAR_RE_match _ = None"

fun YEAR_RE_search :: "string \<Rightarrow> string option" where
  "YEAR_RE_search [] = None"
| "YEAR_RE_search (c # cs) =
     (case YEAR_RE_match (c # cs) of Some y \<Rightarrow> Some y | None \<Rightarrow> YEAR_RE_search cs)"

text \<open>
  \<^verbatim>\<open>extract_year_from_birth\<close>; \<open>None\<close> is Python's \<^verbatim>\<open>None\<close>.  The tests
  \<^verbatim>\<open>len(parts) >= 1\<close> guard \<^verbatim>\<open>parts[0]\<close> and \<^verbatim>\<open>parts[-1]\<close>.
\<close>

definition extract_year_from_birth :: "string \<Rightarrow> string option" where
  "extract_year_from_birth birth_str =
     (if birth_str = [] then None
      else case YEAR_RE_search birth_str of
        Some y \<Rightarrow> Some y
      | None \<Rightarrow>
          (let parts = str_split birth_str (CHR ''-'') in
           if parts \<noteq> [] \<and> length (hd parts) = 4 \<and> str_isdigit (hd parts) then Some (hd parts)
           else if parts \<noteq> [] \<and> length (last parts) = 4 \<and> str_isdigit (last parts)
             then Some (last parts)
           else None))"

subsection \<open>Elements and records\<close>

text \<open>
  An \<^verbatim>\<open>ET.Element\<close>: its tag, its attribute dictionary (in insertion order), its text \<open>elem_text\<close>
  (\<open>None\<close> when the element has none) and its child elements; \<^verbatim>\<open>len(child)\<close> is the
  number of children.
\<close>

datatype element =
  Element (tag: string) (attrib: "(string \<times> string) list") (elem_text: "string option")
    (children: "element list")

text \<open>
  A record value is a \<^verbatim>\<open>str\<close> or a nested \<^verbatim>\<open>dict\<close> of strings.  A Python
  \<^verbatim>\<open>dict\<close> keeps its keys in insertion order and an assignment to a key already present
  replaces the value in place: that is \<^const>\<open>AList.update\<close> on an association list.
\<close>

datatype field_value = Scalar string | Sub "(string \<times> string) list"

type_synonym record_dict = "(string \<times> field_value) list"

type_synonym mapping = "string \<rightharpoonup> string"

text \<open>\<^verbatim>\<open>map_tag\<close>: \<^verbatim>\<open>mapping.get(tag, tag)\<close>.\<close>

definition map_tag :: "string \<Rightarrow> mapping \<Rightarrow> string" where
  "map_tag t mapping = (case mapping t of Some target \<Rightarrow> target | None \<Rightarrow> t)"

text \<open>\<^verbatim>\<open>x.text.strip() if x.text else ''\<close>: a missing and an empty text both give \<open>''\<close>.\<close>

definition text_value :: "string option \<Rightarrow> string" where
  "text_value t = (case t of None \<Rightarrow> [] | Some s \<Rightarrow> if s = [] then [] else str_strip s)"

text \<open>The three loops of \<^verbatim>\<open>person_elem_to_dict\<close>, each threading the dictionary it fills.\<close>

fun attrib_loop :: "mapping \<Rightarrow> (string \<times> string) list \<Rightarrow> record_dict \<Rightarrow> record_dict" where
  "attrib_loop mapping [] d = d"
| "attrib_loop mapping ((k, v) # kvs) d =
     attrib_loop mapping kvs (AList.update (map_tag k mapping) (Scalar v) d)"

fun sub_loop :: "mapping \<Rightarrow> element list \<Rightarrow> (string \<times> string) list \<Rightarrow> (string \<times> string) list" where
  "sub_loop mapping [] sub = sub"
| "sub_loop mapping (g # gs) sub =
     sub_loop mapping gs (AList.update (map_tag (tag g) mapping) (text_value (elem_text g)) sub)"

definition child_value :: "mapping \<Rightarrow> element \<Rightarrow> field_value" where
  "child_value mapping child =
     (if length (children child) = 0 then Scalar (text_value (elem_text child))
      else Sub (sub_loop mapping (children child) []))"

fun child_loop :: "mapping \<Rightarrow> element list \<Rightarrow> record_dict \<Rightarrow> record_dict" where
  "child_loop mapping [] d = d"
| "child_loop mapping (child # cs) d =
     child_loop mapping cs (AList.update (map_tag (tag child) mapping) (child_value mapping child) d)"

definition person_elem_to_dict :: "element \<Rightarrow> mapping \<Rightarrow> record_dict" where
  "person_elem_to_dict elem mapping =
     child_loop mapping (children elem) (attrib_loop mapping (attrib elem) [])"

subsection \<open>The partition key of a record\<close>

text \<open>
  Lines 131 to 139 of \<^verbatim>\<open>main\<close>: the first candidate name that is a key of the record
  gives \<open>birth_val\<close>; only when none is a key (\<open>birth_val\<close> is still \<^verbatim>\<open>None\<close>)
  is the record read under \<^verbatim>\<open>mapping.get('birth', 'birth')\<close>.
\<close>

definition candidates :: "string list" where
  "candidates = [''birth'', ''fecha'', ''fechaNacimiento'', ''birthdate'', ''birth_date'']"

fun candidate_loop :: "string list \<Rightarrow> record_dict \<Rightarrow> field_value option" where
  "candidate_loop [] record = None"
| "candidate_loop (candidate # cs) record =
     (case map_of record candidate of Some v \<Rightarrow> Some v | None \<Rightarrow> candidate_loop cs record)"

definition birth_val :: "mapping \<Rightarrow> record_dict \<Rightarrow> field_value option" where
  "birth_val mapping record =
     (case candidate_loop candidates record of
        Some v \<Rightarrow> Some v
      | None \<Rightarrow> map_of record (map_tag ''birth'' mapping))"

text \<open>
  \<^verbatim>\<open>str(birth_val or 'unknown')\<close>.  \<^verbatim>\<open>None\<close>, the empty string and the empty
  dictionary are false.  The text that \<^verbatim>\<open>str\<close> gives for a non-empty dictionary is
  Python's \<^verbatim>\<open>repr\<close>, which is no part of this program: it is the parameter
  \<open>str_dict\<close>.
\<close>

definition date_text :: "((string \<times> string) list \<Rightarrow> string) \<Rightarrow> field_value option \<Rightarrow> string" where
  "date_text str_dict bv =
     (case bv of
        None \<Rightarrow> ''unknown''
      | Some (Scalar s) \<Rightarrow> if s = [] then ''unknown'' else s
      | Some (Sub d) \<Rightarrow> if d = [] then ''unknown'' else str_dict d)"

text \<open>
  Line 140: \<^verbatim>\<open>extract_year_from_birth(str(birth_val or 'unknown')) or 'unknown'\<close>.
  This is the resolver: from the date value to the partition key.
\<close>

definition year_of :: "((string \<times> string) list \<Rightarrow> string) \<Rightarrow> field_value option \<Rightarrow> string" where
  "year_of str_dict bv =
     (case extract_year_from_birth (date_text str_dict bv) of
        None \<Rightarrow> ''unknown''
      | Some y \<Rightarrow> if y = [] then ''unknown'' else y)"

definition year_str :: "((string \<times> string) list \<Rightarrow> string) \<Rightarrow> mapping \<Rightarrow> record_dict \<Rightarrow> string" where
  "year_str str_dict mapping record = year_of str_dict (birth_val mapping record)"

subsection \<open>Files and writers\<close>

text \<open>
  What the program writes into a file is kept as the sequence of its writes: a literal text
  (\<^verbatim>\<open>f.write(...)\<close>), or the serialisation of one record by \<^verbatim>\<open>json.dump\<close> or by
  \<^verbatim>\<open>yaml.safe_dump\<close>, which are library calls and stay symbolic.  A write that
  raises may have written a part of its chunk: \<open>Partial\<close>.  A file also counts how often it
  was opened and closed.  A file handle is the path it was opened on.
\<close>

datatype chunk = Text string | JsonDump record_dict | YamlDump record_dict | Partial chunk

record file_state =
  content :: "chunk list"
  opens :: nat
  closes :: nat

type_synonym filesystem = "string \<rightharpoonup> file_state"

datatype py_error = OSError string | ValueError string | KeyError string | ParseError

text \<open>
  Every call that reaches the operating system can raise \<^verbatim>\<open>OSError\<close>: opening a path,
  writing to a handle, closing a handle.  Whether a call succeeds is decided by the
  environment, from the call and the files as they are: the parameter \<open>io_ok\<close>.
\<close>

datatype io_op = IoOpen string | IoWrite string chunk | IoClose string

type_synonym env = "io_op \<Rightarrow> filesystem \<Rightarrow> bool"

text \<open>\<^verbatim>\<open>open(p, 'w', encoding='utf-8')\<close> creates or truncates the file.\<close>

definition py_open :: "env \<Rightarrow> string \<Rightarrow> filesystem \<Rightarrow> (py_error \<times> filesystem) + filesystem" where
  "py_open io_ok p fs =
     (if io_ok (IoOpen p) fs
      then Inr (fs(p \<mapsto> \<lparr>content = [],
                          opens = (case fs p of None \<Rightarrow> 1 | Some fl \<Rightarrow> opens fl + 1),
                          closes = (case fs p of None \<Rightarrow> 0 | Some fl \<Rightarrow> closes fl)\<rparr>))
      else Inl (OSError p, fs))"

text \<open>
  A write to a handle (\<^verbatim>\<open>f.write\<close>, \<^verbatim>\<open>json.dump\<close>, \<^verbatim>\<open>yaml.safe_dump\<close>):
  \<^verbatim>\<open>ValueError\<close> on a handle that is not open, \<^verbatim>\<open>OSError\<close> when the environment
  refuses the write, after a part of the chunk at most.
\<close>

definition file_write :: "env \<Rightarrow> string \<Rightarrow> chunk \<Rightarrow> filesystem \<Rightarrow> (py_error \<times> filesystem) + filesystem" where
  "file_write io_ok p c fs =
     (case fs p of
        None \<Rightarrow> Inl (ValueError p, fs)
      | Some fl \<Rightarrow>
          if opens fl \<le> closes fl then Inl (ValueError p, fs)
          else if io_ok (IoWrite p c) fs then Inr (fs(p \<mapsto> fl\<lparr>content := content fl @ [c]\<rparr>))
          else Inl (OSError p, fs(p \<mapsto> fl\<lparr>content := content fl @ [Partial c]\<rparr>)))"

text \<open>
  \<^verbatim>\<open>f.close()\<close>: nothing happens on a handle already closed; a close that raises
  (its flush failed) leaves the handle closed all the same.
\<close>

definition file_close :: "env \<Rightarrow> string \<Rightarrow> filesystem \<Rightarrow> (py_error \<times> filesystem) + filesystem" where
  "file_close io_ok p fs =
     (case fs p of
        None \<Rightarrow> Inl (ValueError p, fs)
      | Some fl \<Rightarrow>
          if opens fl \<le> closes fl then Inr fs
          else if io_ok (IoClose p) fs then Inr (fs(p \<mapsto> fl\<lparr>closes := closes fl + 1\<rparr>))
          else Inl (OSError p, fs(p \<mapsto> fl\<lparr>closes := closes fl + 1\<rparr>)))"

text \<open>The class \<^verbatim>\<open>JsonArrayWriter\<close>: its file handle \<^verbatim>\<open>f\<close> and its flag \<^verbatim>\<open>first\<close>.\<close>

record JsonArrayWriter =
  handle :: string
  first :: bool

text \<open>\<^verbatim>\<open>__init__\<close>: when it raises there is no writer object.\<close>

definition JsonArrayWriter_init ::
  "env \<Rightarrow> string \<Rightarrow> filesystem \<Rightarrow> (py_error \<times> filesystem) + (JsonArrayWriter \<times> filesystem)" where
  "JsonArrayWriter_init io_ok p fs =
     (case py_open io_ok p fs of
        Inl x \<Rightarrow> Inl x
      | Inr fs1 \<Rightarrow>
          (case file_write io_ok p (Text ''[\<newline>'') fs1 of
             Inl x \<Rightarrow> Inl x
           | Inr fs2 \<Rightarrow> Inr (\<lparr>handle = p, first = True\<rparr>, fs2)))"

text \<open>
  \<^verbatim>\<open>write\<close>: the separator or the change of the flag, then \<^verbatim>\<open>json.dump\<close>.  The
  writer is returned in both outcomes, as the call has left it.
\<close>

definition JsonArrayWriter_write ::
  "env \<Rightarrow> JsonArrayWriter \<Rightarrow> record_dict \<Rightarrow> filesystem \<Rightarrow>
     (py_error \<times> JsonArrayWriter \<times> filesystem) + (JsonArrayWriter \<times> filesystem)" where
  "JsonArrayWriter_write io_ok w obj fs =
     (if \<not> first w
      then (case file_write io_ok (handle w) (Text '',\<newline>'') fs of
              Inl (e, fs1) \<Rightarrow> Inl (e, w, fs1)
            | Inr fs1 \<Rightarrow>
                (case file_write io_ok (handle w) (JsonDump obj) fs1 of
                   Inl (e, fs2) \<Rightarrow> Inl (e, w, fs2)
                 | Inr fs2 \<Rightarrow> Inr (w, fs2)))
      else (case file_write io_ok (handle w) (JsonDump obj) fs of
              Inl (e, fs1) \<Rightarrow> Inl (e, w\<lparr>first := False\<rparr>, fs1)
            | Inr fs1 \<Rightarrow> Inr (w\<lparr>first := False\<rparr>, fs1)))"

definition JsonArrayWriter_close ::
  "env \<Rightarrow> JsonArrayWriter \<Rightarrow> filesystem \<Rightarrow> (py_error \<times> filesystem) + filesystem" where
  "JsonArrayWriter_close io_ok w fs =
     (case file_write io_ok (handle w) (Text ''\<newline>]\<newline>'') fs of
        Inl x \<Rightarrow> Inl x
      | Inr fs1 \<Rightarrow> file_close io_ok (handle w) fs1)"

text \<open>\<^verbatim>\<open>yaml_write\<close>: one \<^verbatim>\<open>yaml.safe_dump\<close> of the record, then a newline.\<close>

definition yaml_write ::
  "env \<Rightarrow> string \<Rightarrow> record_dict \<Rightarrow> filesystem \<Rightarrow> (py_error \<times> filesystem) + filesystem" where
  "yaml_write io_ok fh obj fs =
     (case file_write io_ok fh (YamlDump obj) fs of
        Inl x \<Rightarrow> Inl x
      | Inr fs1 \<Rightarrow> file_write io_ok fh (Text ''\<newline>'') fs1)"

subsection \<open>The orchestrator\<close>

text \<open>
  The variables of \<^verbatim>\<open>main\<close> that the loop updates: the two dictionaries from the year
  to its writer, and the files behind the handles.
\<close>

record run_state =
  json_writers :: "(string \<times> JsonArrayWriter) list"
  yaml_files :: "(string \<times> string) list"
  files :: filesystem

definition json_path :: "string \<Rightarrow> string \<Rightarrow> string" where
  "json_path outdir y = outdir @ ''/people_'' @ y @ ''.json''"

definition yaml_path :: "string \<Rightarrow> string \<Rightarrow> string" where
  "yaml_path outdir y = outdir @ ''/people_'' @ y @ ''.yaml''"

text \<open>
  Lines 144 to 146.  An exception leaves the function with the state reached so far
  (\<open>Inl\<close>); nothing in \<^verbatim>\<open>main\<close> catches it.  When the constructor raises, the
  dictionary is not assigned.
\<close>

definition json_route ::
  "env \<Rightarrow> string \<Rightarrow> string \<Rightarrow> record_dict \<Rightarrow> run_state \<Rightarrow> (py_error \<times> run_state) + run_state" where
  "json_route io_ok outdir y record st =
     (case (if map_of (json_writers st) y = None
            then (case JsonArrayWriter_init io_ok (json_path outdir y) (files st) of
                    Inl (e, fs1) \<Rightarrow> Inl (e, st\<lparr>files := fs1\<rparr>)
                  | Inr (w, fs1) \<Rightarrow>
                      Inr (st\<lparr>json_writers := AList.update y w (json_writers st), files := fs1\<rparr>))
            else Inr st) of
        Inl x \<Rightarrow> Inl x
      | Inr st1 \<Rightarrow>
          (case map_of (json_writers st1) y of
             None \<Rightarrow> Inl (KeyError y, st1)
           | Some w \<Rightarrow>
               (case JsonArrayWriter_write io_ok w record (files st1) of
                  Inl (e, w1, fs1) \<Rightarrow>
                    Inl (e, st1\<lparr>json_writers := AList.update y w1 (json_writers st1), files := fs1\<rparr>)
                | Inr (w1, fs1) \<Rightarrow>
                    Inr (st1\<lparr>json_writers := AList.update y w1 (json_writers st1), files := fs1\<rparr>))))"

text \<open>Lines 149 to 151.\<close>

definition yaml_route ::
  "env \<Rightarrow> string \<Rightarrow> string \<Rightarrow> record_dict \<Rightarrow> run_state \<Rightarrow> (py_error \<times> run_state) + run_state" where
  "yaml_route io_ok outdir y record st =
     (case (if map_of (yaml_files st) y = None
            then (case py_open io_ok (yaml_path outdir y) (files st) of
                    Inl (e, fs1) \<Rightarrow> Inl (e, st\<lparr>files := fs1\<rparr>)
                  | Inr fs1 \<Rightarrow>
                      Inr (st\<lparr>yaml_files := AList.update y (yaml_path outdir y) (yaml_files st),
                             files := fs1\<rparr>))
            else Inr st) of
        Inl x \<Rightarrow> Inl x
      | Inr st1 \<Rightarrow>
          (case map_of (yaml_files st1) y of
             None \<Rightarrow> Inl (KeyError y, st1)
           | Some fh \<Rightarrow>
               (case yaml_write io_ok fh record (files st1) of
                  Inl (e, fs1) \<Rightarrow> Inl (e, st1\<lparr>files := fs1\<rparr>)
                | Inr fs1 \<Rightarrow> Inr (st1\<lparr>files := fs1\<rparr>))))"

definition route ::
  "env \<Rightarrow> string \<Rightarrow> string \<Rightarrow> record_dict \<Rightarrow> run_state \<Rightarrow> (py_error \<times> run_state) + run_state" where
  "route io_ok outdir y record st =
     (case json_route io_ok outdir y record st of
        Inl x \<Rightarrow> Inl x
      | Inr st1 \<Rightarrow> yaml_route io_ok outdir y record st1)"

text \<open>
  The body of the loop (lines 124 to 151): an element with another tag is skipped, a record
  element is projected, its year is resolved and the record is routed.
\<close>

definition process_elem ::
  "((string \<times> string) list \<Rightarrow> string) \<Rightarrow> env \<Rightarrow> mapping \<Rightarrow> string \<Rightarrow> string \<Rightarrow>
     element \<Rightarrow> run_state \<Rightarrow> (py_error \<times> run_state) + run_state" where
  "process_elem str_dict io_ok mapping outdir record_tag elem st =
     (if tag elem \<noteq> record_tag then Inr st
      else (let record = person_elem_to_dict elem mapping
            in route io_ok outdir (year_str str_dict mapping record) record st))"

text \<open>
  The loop over \<^verbatim>\<open>ET.iterparse\<close> (line 123).  The reader yields a sequence of elements
  at their end events, each as it is when it is yielded (what \<^verbatim>\<open>elem.clear()\<close> has
  removed from an element nested in a later one is absent from the later one), and then
  either ends or raises: \<open>raised\<close> is \<open>None\<close> when the document ends, and the exception
  (\<^verbatim>\<open>ParseError\<close> on a document that is not well-formed, or an error of reading the
  file) otherwise.  That exception leaves the loop as any other.
\<close>

fun main_loop ::
  "((string \<times> string) list \<Rightarrow> string) \<Rightarrow> env \<Rightarrow> mapping \<Rightarrow> string \<Rightarrow> string \<Rightarrow>
     element list \<Rightarrow> py_error option \<Rightarrow> run_state \<Rightarrow> (py_error \<times> run_state) + run_state" where
  "main_loop str_dict io_ok mapping outdir record_tag [] raised st =
     (case raised of None \<Rightarrow> Inr st | Some e \<Rightarrow> Inl (e, st))"
| "main_loop str_dict io_ok mapping outdir record_tag (elem # rest) raised st =
     (case process_elem str_dict io_ok mapping outdir record_tag elem st of
        Inl x \<Rightarrow> Inl x
      | Inr st1 \<Rightarrow> main_loop str_dict io_ok mapping outdir record_tag rest raised st1)"

text \<open>
  Lines 167 to 170: the two closing loops, over the values of each dictionary.  An exception
  in one of them leaves the writers after it as they are.
\<close>

fun close_json_loop ::
  "env \<Rightarrow> (string \<times> JsonArrayWriter) list \<Rightarrow> filesystem \<Rightarrow> (py_error \<times> filesystem) + filesystem" where
  "close_json_loop io_ok [] fs = Inr fs"
| "close_json_loop io_ok ((y, w) # ws) fs =
     (case JsonArrayWriter_close io_ok w fs of
        Inl x \<Rightarrow> Inl x
      | Inr fs1 \<Rightarrow> close_json_loop io_ok ws fs1)"

fun close_yaml_loop ::
  "env \<Rightarrow> (string \<times> string) list \<Rightarrow> filesystem \<Rightarrow> (py_error \<times> filesystem) + filesystem" where
  "close_yaml_loop io_ok [] fs = Inr fs"
| "close_yaml_loop io_ok ((y, fh) # fhs) fs =
     (case file_close io_ok fh fs of
        Inl x \<Rightarrow> Inl x
      | Inr fs1 \<Rightarrow> close_yaml_loop io_ok fhs fs1)"

definition close_writers :: "env \<Rightarrow> run_state \<Rightarrow> (py_error \<times> run_state) + run_state" where
  "close_writers io_ok st =
     (case close_json_loop io_ok (json_writers st) (files st) of
        Inl (e, fs1) \<Rightarrow> Inl (e, st\<lparr>files := fs1\<rparr>)
      | Inr fs1 \<Rightarrow>
          (case close_yaml_loop io_ok (yaml_files st) fs1 of
             Inl (e, fs2) \<Rightarrow> Inl (e, st\<lparr>files := fs2\<rparr>)
           | Inr fs2 \<Rightarrow> Inr (st\<lparr>files := fs2\<rparr>)))"

definition initial_state :: run_state where
  "initial_state = \<lparr>json_writers = [], yaml_files = [], files = Map.empty\<rparr>"

text \<open>
  \<^verbatim>\<open>main\<close> from line 118 on, for the mapping already loaded: the loop, then the closing
  loops.  The closing loops are reached only when the loop has ended without an exception.
\<close>

definition main ::
  "((string \<times> string) list \<Rightarrow> string) \<Rightarrow> env \<Rightarrow> mapping \<Rightarrow> string \<Rightarrow> string \<Rightarrow>
     element list \<Rightarrow> py_error option \<Rightarrow> (py_error \<times> run_state) + run_state" where
  "main str_dict io_ok mapping outdir record_tag elems raised =
     (case main_loop str_dict io_ok mapping outdir record_tag elems raised initial_state of
        Inl x \<Rightarrow> Inl x
      | Inr st \<Rightarrow> close_writers io_ok st)"

section \<open>Notions of the specification\<close>

subsection \<open>Year runs and segments\<close>

text \<open>
  A year in the sense of the resolver's first step: four characters, \<open>18\<close>, \<open>19\<close> or
  \<open>20\<close> followed by two decimal digits.  \<open>year_at s i\<close>: such a run starts at
  position \<open>i\<close> of \<open>s\<close>.
\<close>

definition is_year :: "string \<Rightarrow> bool" where
  "is_year y = (length y = 4 \<and> take 2 y \<in> {''18'', ''19'', ''20''} \<and> list_all is_decimal (drop 2 y))"

definition year_at :: "string \<Rightarrow> nat \<Rightarrow> bool" where
  "year_at s i = is_year (take 4 (drop i s))"

text \<open>The text before the first \<open>-\<close> and the text after the last one.\<close>

definition first_segment :: "string \<Rightarrow> string" where
  "first_segment s = takeWhile (\<lambda>c. c \<noteq> CHR ''-'') s"

definition last_segment :: "string \<Rightarrow> string" where
  "last_segment s = rev (takeWhile (\<lambda>c. c \<noteq> CHR ''-'') (rev s))"

text \<open>Exactly four digits, a digit being one of 0 to 9, as in a year run.\<close>

definition four_digits :: "string \<Rightarrow> bool" where
  "four_digits p = (length p = 4 \<and> list_all is_decimal p)"

text \<open>
  The superscript digits, which \<^verbatim>\<open>str.isdigit\<close> accepts and which are no decimal
  digits.
\<close>

definition superscript_digit :: "char \<Rightarrow> bool" where
  "superscript_digit c = (c = CHR 0xB2 \<or> c = CHR 0xB3 \<or> c = CHR 0xB9)"

subsection \<open>Records routed to a key, and the shape of the two output files\<close>

text \<open>The pairs of partition key and record that a sequence of elements gives rise to.\<close>

definition routed ::
  "((string \<times> string) list \<Rightarrow> string) \<Rightarrow> mapping \<Rightarrow> string \<Rightarrow> element list \<Rightarrow> (string \<times> record_dict) list" where
  "routed str_dict mapping record_tag elems =
     map (\<lambda>e. (year_str str_dict mapping (person_elem_to_dict e mapping), person_elem_to_dict e mapping))
       (filter (\<lambda>e. tag e = record_tag) elems)"

definition records_for :: "string \<Rightarrow> (string \<times> record_dict) list \<Rightarrow> record_dict list" where
  "records_for y rs = map snd (filter (\<lambda>kr. fst kr = y) rs)"

text \<open>The elements of a JSON array: a separator before every element except the first.\<close>

fun json_elements :: "record_dict list \<Rightarrow> chunk list" where
  "json_elements [] = []"
| "json_elements (r # rs) = JsonDump r # concat (map (\<lambda>x. [Text '',\<newline>'', JsonDump x]) rs)"

definition json_array :: "record_dict list \<Rightarrow> chunk list" where
  "json_array rs = Text ''[\<newline>'' # json_elements rs @ [Text ''\<newline>]\<newline>'']"

text \<open>What the program writes for a sequence of records into a YAML file.\<close>

definition yaml_stream :: "record_dict list \<Rightarrow> chunk list" where
  "yaml_stream rs = concat (map (\<lambda>r. [YamlDump r, Text ''\<newline>'']) rs)"

subsection \<open>Invariants of the loop\<close>

text \<open>
  After the records \<open>rs\<close> have been routed: there is one JSON writer for each key of
  \<open>rs\<close> and no other, bound to the path of the key, and its file, opened once and never
  closed, holds the opening bracket and the records of the key.
\<close>

definition json_inv :: "string \<Rightarrow> (string \<times> record_dict) list \<Rightarrow> run_state \<Rightarrow> bool" where
  "json_inv outdir rs st \<longleftrightarrow>
     distinct (map fst (json_writers st)) \<and>
     fst ` set (json_writers st) = fst ` set rs \<and>
     (\<forall>y \<in> fst ` set rs.
        map_of (json_writers st) y = Some \<lparr>handle = json_path outdir y, first = False\<rparr> \<and>
        files st (json_path outdir y) =
          Some \<lparr>content = Text ''[\<newline>'' # json_elements (records_for y rs), opens = 1, closes = 0\<rparr>)"

definition yaml_inv :: "string \<Rightarrow> (string \<times> record_dict) list \<Rightarrow> run_state \<Rightarrow> bool" where
  "yaml_inv outdir rs st \<longleftrightarrow>
     distinct (map fst (yaml_files st)) \<and>
     fst ` set (yaml_files st) = fst ` set rs \<and>
     (\<forall>y \<in> fst ` set rs.
        map_of (yaml_files st) y = Some (yaml_path outdir y) \<and>
        files st (yaml_path outdir y) =
          Some \<lparr>content = yaml_stream (records_for y rs), opens = 1, closes = 0\<rparr>)"

text \<open>Every file that exists belongs to a writer of one of the two dictionaries.\<close>

definition dom_inv :: "string \<Rightarrow> run_state \<Rightarrow> bool" where
  "dom_inv outdir st \<longleftrightarrow>
     (\<forall>p. files st p \<noteq> None \<longrightarrow>
        (\<exists>y \<in> fst ` set (json_writers st). p = json_path outdir y) \<or>
        (\<exists>y \<in> fst ` set (yaml_files st). p = yaml_path outdir y))"

text \<open>Every file that exists has been opened once and has not been closed.\<close>

definition unclosed :: "filesystem \<Rightarrow> bool" where
  "unclosed fs \<longleftrightarrow> (\<forall>p fl. fs p = Some fl \<longrightarrow> opens fl = 1 \<and> closes fl = 0)"

subsection \<open>Sample inputs\<close>

definition sample_city :: element where
  "sample_city = Element ''city'' [] (Some ''X '') [Element ''deep'' [] (Some ''z'') []]"

definition sample_birth :: element where
  "sample_birth = Element ''birth'' [] (Some '' 1990-01-01 '') []"

definition sample_address :: element where
  "sample_address = Element ''address'' [] None [sample_city]"

definition sample_person :: element where
  "sample_person =
     Element ''person'' [(''id'', ''7'')] None
       [Element ''birth'' [] (Some '' 1990-01-01 '') [],
        Element ''address'' [] None
          [Element ''city'' [] (Some ''X '') [Element ''deep'' [] (Some ''z'') []]]]"

definition birth_to_dob :: mapping where
  "birth_to_dob = [''birth'' \<mapsto> ''dob'']"

definition two_phones :: element where
  "two_phones =
     Element ''person'' [] None
       [Element ''phone'' [] (Some ''1'') [], Element ''phone'' [] (Some ''2'') []]"

definition empty_target :: mapping where
  "empty_target = [''name'' \<mapsto> '''']"

definition named_person :: element where
  "named_person = Element ''person'' [] None [Element ''name'' [] (Some ''A'') []]"

definition birth_and_dob :: element where
  "birth_and_dob =
     Element ''person'' [] None
       [Element ''birth'' [] (Some ''1990-01-01'') [], Element ''dob'' [] (Some ''n/a'') []]"

text \<open>The text 19 followed by the superscripts two and three.\<close>

definition superscript_year :: string where
  "superscript_year = [CHR ''1'', CHR ''9'', CHR 0xB2, CHR 0xB3]"

definition padded_attribute :: element where
  "padded_attribute = Element ''person'' [(''birth'', ''1-1-1755 '')] None []"

definition padded_child :: element where
  "padded_child = Element ''person'' [] None [Element ''birth'' [] (Some ''1-1-1755 '') []]"

definition birth_attribute :: element where
  "birth_attribute = Element ''person'' [(''birth'', ''1990-01-01''), (''id'', ''7'')] None []"

text \<open>Whether a chunk is the serialisation of a record.\<close>

definition is_dump :: "chunk \<Rightarrow> bool" where
  "is_dump c =
     (case c of Text t \<Rightarrow> False | JsonDump r \<Rightarrow> True | YamlDump r \<Rightarrow> True | Partial d \<Rightarrow> False)"

text \<open>
  The elements that the reader yields for three records dated 1990-01-01, not-a-date and
  1990-12-31 (each \<open>birth\<close> element ends before its record element), and an environment
  in which the JSON file of the key \<open>unknown\<close> cannot be opened.
\<close>

definition birth_1990a :: element where
  "birth_1990a = Element ''birth'' [] (Some ''1990-01-01'') []"

definition birth_undated :: element where
  "birth_undated = Element ''birth'' [] (Some ''not-a-date'') []"

definition birth_1990b :: element where
  "birth_1990b = Element ''birth'' [] (Some ''1990-12-31'') []"

definition born_1990a :: element where
  "born_1990a = Element ''person'' [] None [birth_1990a]"

definition undated :: element where
  "undated = Element ''person'' [] None [birth_undated]"

definition born_1990b :: element where
  "born_1990b = Element ''person'' [] None [birth_1990b]"

definition scenario :: "element list" where
  "scenario = [birth_1990a, born_1990a, birth_undated, undated, birth_1990b, born_1990b]"

definition unknown_unwritable :: env where
  "unknown_unwritable op fs = (op \<noteq> IoOpen ''out/people_unknown.json'')"

definition aborted_run :: "(py_error \<times> run_state) + run_state" where
  "aborted_run = main (\<lambda>d. []) unknown_unwritable Map.empty ''out'' ''person'' scenario None"

text \<open>
  A document that is cut off after its first record, in an environment that refuses nothing:
  the reader yields the elements of the first record and then raises \<^verbatim>\<open>ParseError\<close>.
\<close>

definition truncated_run :: "(py_error \<times> run_state) + run_state" where
  "truncated_run =
     main (\<lambda>d. []) (\<lambda>op fs. True) Map.empty ''out'' ''person'' [birth_1990a, born_1990a]
       (Some ParseError)"

section \<open>The date resolver\<close>

lemma YEAR_RE_match_eq:
  "YEAR_RE_match s = (if is_year (take 4 s) then Some (take 4 s) else None)"
proof (cases s rule: YEAR_RE_match.cases)
  case (1 a b c d rest)
  then show ?thesis by (simp add: is_year_def)
qed (simp_all add: is_year_def)

lemma year_at_Nil [simp]: "\<not> year_at [] i"
  by (simp add: year_at_def is_year_def)

lemma year_at_Cons_0: "year_at (c # cs) 0 = is_year (take 4 (c # cs))"
  by (simp add: year_at_def)

lemma year_at_Cons_Suc [simp]: "year_at (c # cs) (Suc i) = year_at cs i"
  by (simp add: year_at_def)

lemma YEAR_RE_search_None: "YEAR_RE_search s = None \<longleftrightarrow> (\<forall>i. \<not> year_at s i)"
proof (induction s)
  case Nil
  show ?case by simp
next
  case (Cons c cs)
  show ?case
  proof (cases "is_year (take 4 (c # cs))")
    case True
    then have "year_at (c # cs) 0" by (simp add: year_at_Cons_0)
    with True show ?thesis by (auto simp: YEAR_RE_match_eq simp del: YEAR_RE_match.simps)
  next
    case False
    have "(\<forall>i. \<not> year_at (c # cs) i) \<longleftrightarrow> (\<forall>i. \<not> year_at cs i)"
    proof
      assume h: "\<forall>i. \<not> year_at (c # cs) i"
      show "\<forall>i. \<not> year_at cs i"
      proof
        fix i from h have "\<not> year_at (c # cs) (Suc i)" by blast
        then show "\<not> year_at cs i" by simp
      qed
    next
      assume h: "\<forall>i. \<not> year_at cs i"
      show "\<forall>i. \<not> year_at (c # cs) i"
      proof
        fix i show "\<not> year_at (c # cs) i"
          using h False by (cases i) (simp_all add: year_at_Cons_0)
      qed
    qed
    with False Cons.IH show ?thesis
      by (simp add: YEAR_RE_match_eq del: YEAR_RE_match.simps)
  qed
qed

lemma YEAR_RE_search_leftmost:
  "year_at s i \<Longrightarrow> (\<forall>j<i. \<not> year_at s j) \<Longrightarrow> YEAR_RE_search s = Some (take 4 (drop i s))"
proof (induction s arbitrary: i)
  case Nil
  then show ?case by simp
next
  case (Cons c cs)
  show ?case
  proof (cases i)
    case 0
    with Cons.prems(1) have "is_year (take 4 (c # cs))" by (simp add: year_at_Cons_0)
    with 0 show ?thesis by (simp add: YEAR_RE_match_eq del: YEAR_RE_match.simps)
  next
    case (Suc k)
    with Cons.prems(2) have "\<not> year_at (c # cs) 0" by blast
    then have no: "\<not> is_year (take 4 (c # cs))" by (simp add: year_at_Cons_0)
    from Suc Cons.prems(1) have k: "year_at cs k" by simp
    have "\<forall>j<k. \<not> year_at cs j"
    proof (intro allI impI)
      fix j assume "j < k"
      then have "Suc j < i" using Suc by simp
      with Cons.prems(2) have "\<not> year_at (c # cs) (Suc j)" by blast
      then show "\<not> year_at cs j" by simp
    qed
    with k have "YEAR_RE_search cs = Some (take 4 (drop k cs))" by (rule Cons.IH)
    with no Suc show ?thesis by (simp add: YEAR_RE_match_eq del: YEAR_RE_match.simps)
  qed
qed

lemma split_acc_nonempty [simp]: "split_acc sep cur s \<noteq> []"
  by (induction s arbitrary: cur) auto

lemma hd_split_acc: "hd (split_acc sep cur s) = rev cur @ takeWhile (\<lambda>c. c \<noteq> sep) s"
  by (induction s arbitrary: cur) auto

lemma last_split_acc:
  "last (split_acc sep cur s) =
     (if sep \<in> set s then rev (takeWhile (\<lambda>c. c \<noteq> sep) (rev s)) else rev cur @ s)"
proof (induction s arbitrary: cur)
  case Nil
  show ?case by simp
next
  case (Cons c cs)
  show ?case
  proof (cases "c = sep")
    case True
    then show ?thesis
      by (simp add: Cons.IH [of "[]"] takeWhile_append)
  next
    case False
    then show ?thesis
      by (auto simp: Cons.IH [of "c # cur"] takeWhile_append)
  qed
qed

lemma hd_str_split: "hd (str_split s (CHR ''-'')) = first_segment s"
  by (simp add: str_split_def first_segment_def hd_split_acc)

lemma last_str_split: "last (str_split s (CHR ''-'')) = last_segment s"
proof (cases "CHR ''-'' \<in> set s")
  case True
  then show ?thesis by (simp add: str_split_def last_segment_def last_split_acc)
next
  case False
  then have tw: "takeWhile (\<lambda>c. c \<noteq> CHR ''-'') (rev s) = rev s"
    by (auto simp: takeWhile_eq_all_conv)
  show ?thesis using False by (simp add: str_split_def last_segment_def last_split_acc tw)
qed

lemma isdigit_char_decimal: "\<not> superscript_digit c \<Longrightarrow> isdigit_char c = is_decimal c"
  by (simp add: isdigit_char_def superscript_digit_def)

lemma code_test_decimal:
  assumes "\<forall>c \<in> set p. \<not> superscript_digit c"
  shows "(length p = 4 \<and> str_isdigit p) = four_digits p"
proof -
  from assms have "list_all isdigit_char p = list_all is_decimal p"
    by (induction p) (simp_all add: isdigit_char_decimal)
  then show ?thesis by (auto simp: four_digits_def str_isdigit_def)
qed

lemma four_digits_code_test: "four_digits p \<Longrightarrow> length p = 4 \<and> str_isdigit p"
  by (auto simp: four_digits_def str_isdigit_def isdigit_char_def list_all_iff)

lemma set_first_segment: "set (first_segment s) \<subseteq> set s"
  by (auto simp: first_segment_def dest: set_takeWhileD)

lemma set_last_segment: "set (last_segment s) \<subseteq> set s"
  by (auto simp: last_segment_def dest: set_takeWhileD)

lemma extract_no_run:
  assumes "\<forall>i. \<not> year_at s i"
  shows "extract_year_from_birth s =
     (if length (first_segment s) = 4 \<and> str_isdigit (first_segment s) then Some (first_segment s)
      else if length (last_segment s) = 4 \<and> str_isdigit (last_segment s)
        then Some (last_segment s)
      else None)"
proof (cases "s = []")
  case True
  then show ?thesis
    by (simp add: extract_year_from_birth_def first_segment_def last_segment_def)
next
  case False
  from assms have "YEAR_RE_search s = None" by (simp add: YEAR_RE_search_None)
  with False show ?thesis
    by (simp add: extract_year_from_birth_def Let_def str_split_def
        hd_str_split [unfolded str_split_def] last_str_split [unfolded str_split_def])
qed

lemma extract_run:
  assumes "year_at s i" "\<forall>j<i. \<not> year_at s j"
  shows "extract_year_from_birth s = Some (take 4 (drop i s))"
proof -
  from assms(1) have "s \<noteq> []" by auto
  moreover have "YEAR_RE_search s = Some (take 4 (drop i s))"
    using assms by (rule YEAR_RE_search_leftmost)
  ultimately show ?thesis by (simp add: extract_year_from_birth_def)
qed

lemma year_of_scalar:
  "year_of sd (Some (Scalar s)) =
     (case extract_year_from_birth (if s = [] then ''unknown'' else s) of
        None \<Rightarrow> ''unknown'' | Some y \<Rightarrow> if y = [] then ''unknown'' else y)"
  by (simp add: year_of_def date_text_def)

lemma extract_unknown: "extract_year_from_birth ''unknown'' = None"
  by (simp add: extract_year_from_birth_def str_split_def str_isdigit_def)

lemma year_at_nonempty: "year_at s i \<Longrightarrow> take 4 (drop i s) \<noteq> []"
  by (auto simp: year_at_def is_year_def)

lemma year_of_run:
  assumes "year_at s i" "\<forall>j<i. \<not> year_at s j"
  shows "year_of sd (Some (Scalar s)) = take 4 (drop i s)"
proof -
  from assms(1) have "s \<noteq> []" by auto
  then show ?thesis
    using extract_run [OF assms] year_at_nonempty [OF assms(1)] by (simp add: year_of_scalar)
qed

lemma year_of_no_run:
  assumes "\<forall>i. \<not> year_at s i"
  shows "year_of sd (Some (Scalar s)) =
     (if length (first_segment s) = 4 \<and> str_isdigit (first_segment s) then first_segment s
      else if length (last_segment s) = 4 \<and> str_isdigit (last_segment s) then last_segment s
      else ''unknown'')"
proof (cases "s = []")
  case True
  then show ?thesis
    by (simp add: year_of_scalar extract_unknown first_segment_def last_segment_def)
next
  case False
  have "p \<noteq> []" if "length p = 4" for p :: string using that by auto
  with False show ?thesis
    using extract_no_run [OF assms] by (simp add: year_of_scalar)
qed

lemma year_of_no_run_decimal:
  assumes "\<forall>i. \<not> year_at s i" and "\<forall>c \<in> set s. \<not> superscript_digit c"
  shows "year_of sd (Some (Scalar s)) =
     (if four_digits (first_segment s) then first_segment s
      else if four_digits (last_segment s) then last_segment s else ''unknown'')"
proof -
  from assms(2) have "\<forall>c \<in> set (first_segment s). \<not> superscript_digit c"
    "\<forall>c \<in> set (last_segment s). \<not> superscript_digit c"
    using set_first_segment [of s] set_last_segment [of s] by blast+
  then have "(length (first_segment s) = 4 \<and> str_isdigit (first_segment s)) = four_digits (first_segment s)"
    "(length (last_segment s) = 4 \<and> str_isdigit (last_segment s)) = four_digits (last_segment s)"
    by (simp_all only: code_test_decimal)
  then show ?thesis by (simp only: year_of_no_run [OF assms(1)])
qed

lemma superscript_year_facts:
  "\<forall>i. \<not> year_at superscript_year i" "first_segment superscript_year = superscript_year"
  "last_segment superscript_year = superscript_year" "length superscript_year = 4"
  "str_isdigit superscript_year" "\<not> four_digits superscript_year"
proof -
  have "YEAR_RE_search superscript_year = None"
    by (simp add: superscript_year_def is_decimal_def)
  then show "\<forall>i. \<not> year_at superscript_year i" by (simp add: YEAR_RE_search_None)
  show "first_segment superscript_year = superscript_year"
    "last_segment superscript_year = superscript_year" "length superscript_year = 4"
    "str_isdigit superscript_year" "\<not> four_digits superscript_year"
    by (simp_all add: superscript_year_def first_segment_def last_segment_def str_isdigit_def
        isdigit_char_def is_decimal_def four_digits_def)
qed

text \<open>
  Claim C1, on the code.  The resolver goes through the steps of the claim in order on
  every date text that holds none of the superscript digits: a missing and an empty date
  give \<open>unknown\<close>; a text that holds a year run (18xx, 19xx or 20xx) gives one of its year
  runs; otherwise the first \<open>-\<close>-separated segment when it is exactly four digits;
  otherwise the last segment when it is exactly four digits; otherwise \<open>unknown\<close>.  The
  first two steps are those of the claim on every text.  On the text 19 followed by the
  superscripts two and three, which holds no year run and no segment of four digits, the
  resolver returns the text itself where the claim gives \<open>unknown\<close>.
\<close>

theorem resolver_order:
  "year_of sd None = ''unknown'' \<and>
   year_of sd (Some (Scalar [])) = ''unknown'' \<and>
   ((\<exists>i. year_at s i) \<longrightarrow>
      (\<exists>i. year_at s i \<and> year_of sd (Some (Scalar s)) = take 4 (drop i s))) \<and>
   ((\<forall>i. \<not> year_at s i) \<and> four_digits (first_segment s) \<longrightarrow>
      year_of sd (Some (Scalar s)) = first_segment s) \<and>
   ((\<forall>c \<in> set s. \<not> superscript_digit c) \<and>
    (\<forall>i. \<not> year_at s i) \<and> \<not> four_digits (first_segment s) \<and> four_digits (last_segment s) \<longrightarrow>
      year_of sd (Some (Scalar s)) = last_segment s) \<and>
   ((\<forall>c \<in> set s. \<not> superscript_digit c) \<and>
    (\<forall>i. \<not> year_at s i) \<and> \<not> four_digits (first_segment s) \<and> \<not> four_digits (last_segment s) \<longrightarrow>
      year_of sd (Some (Scalar s)) = ''unknown'') \<and>
   ((\<forall>i. \<not> year_at superscript_year i) \<and> \<not> four_digits (first_segment superscript_year) \<and>
    \<not> four_digits (last_segment superscript_year) \<and>
    year_of sd (Some (Scalar superscript_year)) = superscript_year \<and>
    superscript_year \<noteq> ''unknown'')"
proof -
  have a: "year_of sd None = ''unknown''"
    by (simp add: year_of_def date_text_def extract_unknown)
  have b: "year_of sd (Some (Scalar [])) = ''unknown''"
    by (simp add: year_of_scalar extract_unknown)
  have c: "\<exists>i. year_at s i \<and> year_of sd (Some (Scalar s)) = take 4 (drop i s)"
    if "\<exists>i. year_at s i"
  proof -
    define k where "k = (LEAST i. year_at s i)"
    from that have k: "year_at s k" unfolding k_def by (auto intro: LeastI)
    have "\<forall>j<k. \<not> year_at s j" unfolding k_def using not_less_Least by blast
    with k have "year_of sd (Some (Scalar s)) = take 4 (drop k s)" by (rule year_of_run)
    with k show ?thesis by blast
  qed
  have d: "year_of sd (Some (Scalar s)) = first_segment s"
    if "(\<forall>i. \<not> year_at s i) \<and> four_digits (first_segment s)"
    using that four_digits_code_test [of "first_segment s"] by (simp add: year_of_no_run)
  have e: "year_of sd (Some (Scalar s)) = last_segment s"
    if "(\<forall>c \<in> set s. \<not> superscript_digit c) \<and>
      (\<forall>i. \<not> year_at s i) \<and> \<not> four_digits (first_segment s) \<and> four_digits (last_segment s)"
    using that by (simp add: year_of_no_run_decimal)
  have f: "year_of sd (Some (Scalar s)) = ''unknown''"
    if "(\<forall>c \<in> set s. \<not> superscript_digit c) \<and>
      (\<forall>i. \<not> year_at s i) \<and> \<not> four_digits (first_segment s) \<and> \<not> four_digits (last_segment s)"
    using that by (simp add: year_of_no_run_decimal)
  have g: "(\<forall>i. \<not> year_at superscript_year i) \<and> \<not> four_digits (first_segment superscript_year) \<and>
    \<not> four_digits (last_segment superscript_year) \<and>
    year_of sd (Some (Scalar superscript_year)) = superscript_year \<and>
    superscript_year \<noteq> ''unknown''"
  proof -
    have "year_of sd (Some (Scalar superscript_year)) = superscript_year"
      using superscript_year_facts by (simp add: year_of_no_run)
    moreover have "superscript_year \<noteq> ''unknown''" by (simp add: superscript_year_def)
    ultimately show ?thesis using superscript_year_facts by simp
  qed
  from c have c': "(\<exists>i. year_at s i) \<longrightarrow>
      (\<exists>i. year_at s i \<and> year_of sd (Some (Scalar s)) = take 4 (drop i s))" by (rule impI)
  from d have d': "(\<forall>i. \<not> year_at s i) \<and> four_digits (first_segment s) \<longrightarrow>
      year_of sd (Some (Scalar s)) = first_segment s" by (rule impI)
  from e have e': "(\<forall>c \<in> set s. \<not> superscript_digit c) \<and>
    (\<forall>i. \<not> year_at s i) \<and> \<not> four_digits (first_segment s) \<and> four_digits (last_segment s) \<longrightarrow>
      year_of sd (Some (Scalar s)) = last_segment s" by (rule impI)
  from f have f': "(\<forall>c \<in> set s. \<not> superscript_digit c) \<and>
    (\<forall>i. \<not> year_at s i) \<and> \<not> four_digits (first_segment s) \<and> \<not> four_digits (last_segment s) \<longrightarrow>
      year_of sd (Some (Scalar s)) = ''unknown''" by (rule impI)
  show ?thesis
    by (rule conjI [OF a conjI [OF b conjI [OF c' conjI [OF d' conjI [OF e' conjI [OF f' g]]]]]])
qed

theorem resolver_order_witness:
  "(\<exists>i. year_at ''born 1971-05-02'' i \<and>
      year_of (\<lambda>d. []) (Some (Scalar ''born 1971-05-02'')) = take 4 (drop i ''born 1971-05-02'')) \<and>
   year_of (\<lambda>d. []) (Some (Scalar ''1755-3-9'')) = ''1755'' \<and>
   year_of (\<lambda>d. []) (Some (Scalar ''9-3-1755'')) = ''1755'' \<and>
   year_of (\<lambda>d. []) (Some (Scalar ''not-a-date'')) = ''unknown'' \<and>
   year_of (\<lambda>d. []) (Some (Scalar superscript_year)) = superscript_year"
proof -
  have r: "\<exists>i. year_at ''born 1971-05-02'' i"
  proof
    show "year_at ''born 1971-05-02'' 5" by (simp add: year_at_def is_year_def is_decimal_def)
  qed
  have n1: "\<forall>i. \<not> year_at ''1755-3-9'' i"
    by (simp add: YEAR_RE_search_None [symmetric])
  have n2: "\<forall>i. \<not> year_at ''9-3-1755'' i"
    by (simp add: YEAR_RE_search_None [symmetric])
  have n3: "\<forall>i. \<not> year_at ''not-a-date'' i"
    by (simp add: YEAR_RE_search_None [symmetric])
  have s2: "\<forall>c \<in> set ''9-3-1755''. \<not> superscript_digit c"
    by (simp add: superscript_digit_def)
  have s3: "\<forall>c \<in> set ''not-a-date''. \<not> superscript_digit c"
    by (simp add: superscript_digit_def)
  have f1: "first_segment ''1755-3-9'' = ''1755''" by (simp add: first_segment_def)
  have f2: "first_segment ''9-3-1755'' = ''9''" by (simp add: first_segment_def)
  have l2: "last_segment ''9-3-1755'' = ''1755''" by (simp add: last_segment_def)
  have f3: "first_segment ''not-a-date'' = ''not''" by (simp add: first_segment_def)
  have l3: "last_segment ''not-a-date'' = ''date''" by (simp add: last_segment_def)
  have d: "four_digits ''1755''" "\<not> four_digits ''9''" "\<not> four_digits ''not''" "\<not> four_digits ''date''"
    by (simp_all add: four_digits_def is_decimal_def)
  note th = resolver_order [where sd = "\<lambda>d. []"]
  have c1: "\<exists>i. year_at ''born 1971-05-02'' i \<and>
      year_of (\<lambda>d. []) (Some (Scalar ''born 1971-05-02'')) = take 4 (drop i ''born 1971-05-02'')"
    using r by (rule th [where s = "''born 1971-05-02''", THEN conjunct2, THEN conjunct2,
          THEN conjunct1, THEN mp])
  have c2: "year_of (\<lambda>d. []) (Some (Scalar ''1755-3-9'')) = ''1755''"
    using th [where s = "''1755-3-9''", THEN conjunct2, THEN conjunct2, THEN conjunct2,
        THEN conjunct1] n1 f1 d by simp
  have c3: "year_of (\<lambda>d. []) (Some (Scalar ''9-3-1755'')) = ''1755''"
    using th [where s = "''9-3-1755''", THEN conjunct2, THEN conjunct2, THEN conjunct2,
        THEN conjunct2, THEN conjunct1] n2 s2 f2 l2 d by simp
  have c4: "year_of (\<lambda>d. []) (Some (Scalar ''not-a-date'')) = ''unknown''"
    using th [where s = "''not-a-date''", THEN conjunct2, THEN conjunct2, THEN conjunct2,
        THEN conjunct2, THEN conjunct2, THEN conjunct1] n3 s3 f3 l3 d by simp
  have c5: "year_of (\<lambda>d. []) (Some (Scalar superscript_year)) = superscript_year"
    using th [where s = "[]", THEN conjunct2, THEN conjunct2, THEN conjunct2,
        THEN conjunct2, THEN conjunct2, THEN conjunct2] by (elim conjE)
  from c1 c2 c3 c4 c5 show ?thesis by (intro conjI)
qed

text \<open>
  Claim C10.  When the date text holds year runs, the resolver returns the leftmost one:
  the run at position \<open>i\<close> when no run starts before \<open>i\<close>, whatever follows.
\<close>

theorem resolver_leftmost:
  "year_at s i \<Longrightarrow> (\<forall>j<i. \<not> year_at s j) \<Longrightarrow>
     year_of sd (Some (Scalar s)) = take 4 (drop i s)"
  by (rule year_of_run)

theorem resolver_leftmost_witness:
  "year_at ''b. 1971, d. 2020'' 3 \<and> year_at ''b. 1971, d. 2020'' 12 \<and>
   \<not> year_at ''b. 1971, d. 2020'' 0 \<and> \<not> year_at ''b. 1971, d. 2020'' 1 \<and>
   \<not> year_at ''b. 1971, d. 2020'' 2 \<and>
   year_of (\<lambda>d. []) (Some (Scalar ''b. 1971, d. 2020'')) = ''1971''"
proof -
  have a: "year_at ''b. 1971, d. 2020'' 3" "year_at ''b. 1971, d. 2020'' 12"
    by (simp_all add: year_at_def is_year_def is_decimal_def)
  have n: "\<not> year_at ''b. 1971, d. 2020'' 0" "\<not> year_at ''b. 1971, d. 2020'' 1"
    "\<not> year_at ''b. 1971, d. 2020'' 2"
    by (simp_all add: year_at_def is_year_def is_decimal_def)
  have b: "\<forall>j<3. \<not> year_at ''b. 1971, d. 2020'' j"
  proof (intro allI impI)
    fix j :: nat
    assume "j < 3"
    then consider "j = 0" | "j = 1" | "j = 2" by linarith
    then show "\<not> year_at ''b. 1971, d. 2020'' j" using n by cases simp_all
  qed
  have "year_of (\<lambda>d. []) (Some (Scalar ''b. 1971, d. 2020'')) = take 4 (drop 3 ''b. 1971, d. 2020'')"
    using a(1) b by (rule resolver_leftmost)
  with a n show ?thesis by simp
qed

section \<open>The record projector\<close>

lemma set_update_subset: "set (AList.update k v al) \<subseteq> insert (k, v) (set al)"
  by (induction al) auto

lemma fold_update_keys:
  "fst ` set (fold (\<lambda>x. AList.update (kf x) (vf x)) xs d) = fst ` set d \<union> kf ` set xs"
  by (induction xs arbitrary: d) (auto simp: dom_update)

lemma fold_update_distinct:
  "distinct (map fst d) \<Longrightarrow> distinct (map fst (fold (\<lambda>x. AList.update (kf x) (vf x)) xs d))"
  by (induction xs arbitrary: d) (simp_all add: distinct_update)

lemma fold_update_frame:
  "k \<notin> kf ` set xs \<Longrightarrow> map_of (fold (\<lambda>x. AList.update (kf x) (vf x)) xs d) k = map_of d k"
  by (induction xs arbitrary: d) (simp_all add: update_conv')

lemma fold_update_last:
  assumes "kf x \<notin> kf ` set xs2"
  shows "map_of (fold (\<lambda>x. AList.update (kf x) (vf x)) (xs1 @ x # xs2) d) (kf x) = Some (vf x)"
  using assms by (simp add: fold_update_frame update_conv')

lemma fold_update_mem:
  "(k, v) \<in> set (fold (\<lambda>x. AList.update (kf x) (vf x)) xs d) \<Longrightarrow>
     (k, v) \<in> set d \<or> (\<exists>x \<in> set xs. k = kf x \<and> v = vf x)"
proof (induction xs arbitrary: d)
  case Nil
  then show ?case by simp
next
  case (Cons x xs)
  from Cons.prems have "(k, v) \<in> set (fold (\<lambda>x. AList.update (kf x) (vf x)) xs (AList.update (kf x) (vf x) d))"
    by simp
  then have "(k, v) \<in> set (AList.update (kf x) (vf x) d) \<or> (\<exists>x \<in> set xs. k = kf x \<and> v = vf x)"
    by (rule Cons.IH)
  then show ?case using set_update_subset [of "kf x" "vf x" d] by auto
qed

lemma attrib_loop_fold:
  "attrib_loop m kvs d = fold (\<lambda>kv. AList.update (map_tag (fst kv) m) (Scalar (snd kv))) kvs d"
  by (induction m kvs d rule: attrib_loop.induct) simp_all

lemma sub_loop_fold:
  "sub_loop m gs sub =
     fold (\<lambda>g. AList.update (map_tag (tag g) m) (text_value (elem_text g))) gs sub"
  by (induction m gs sub rule: sub_loop.induct) simp_all

lemma child_loop_fold:
  "child_loop m cs d = fold (\<lambda>c. AList.update (map_tag (tag c) m) (child_value m c)) cs d"
  by (induction m cs d rule: child_loop.induct) simp_all

lemma sub_loop_keys: "fst ` set (sub_loop m gs []) = (\<lambda>g. map_tag (tag g) m) ` set gs"
  by (simp add: sub_loop_fold fold_update_keys)

lemma sub_loop_distinct: "distinct (map fst (sub_loop m gs []))"
  by (simp add: sub_loop_fold fold_update_distinct)

lemma sub_loop_last:
  "map_tag (tag g) m \<notin> (\<lambda>g. map_tag (tag g) m) ` set gs2 \<Longrightarrow>
     map_of (sub_loop m (gs1 @ g # gs2) []) (map_tag (tag g) m) = Some (text_value (elem_text g))"
  unfolding sub_loop_fold
  by (rule fold_update_last [where kf = "\<lambda>g. map_tag (tag g) m" and vf = "\<lambda>g. text_value (elem_text g)"])

lemma record_keys:
  "fst ` set (person_elem_to_dict e m) =
     (\<lambda>kv. map_tag (fst kv) m) ` set (attrib e) \<union> (\<lambda>c. map_tag (tag c) m) ` set (children e)"
  by (simp add: person_elem_to_dict_def child_loop_fold attrib_loop_fold fold_update_keys)

lemma record_distinct: "distinct (map fst (person_elem_to_dict e m))"
  by (simp add: person_elem_to_dict_def child_loop_fold attrib_loop_fold fold_update_distinct)

lemma record_child_last:
  assumes "children e = cs1 @ c # cs2"
    and "map_tag (tag c) m \<notin> (\<lambda>c. map_tag (tag c) m) ` set cs2"
  shows "map_of (person_elem_to_dict e m) (map_tag (tag c) m) = Some (child_value m c)"
  unfolding person_elem_to_dict_def child_loop_fold assms(1)
  using assms(2)
  by (rule fold_update_last [where kf = "\<lambda>c. map_tag (tag c) m" and vf = "child_value m"])

lemma record_attrib_last:
  assumes "attrib e = kvs1 @ (k, v) # kvs2"
    and "map_tag k m \<notin> (\<lambda>kv. map_tag (fst kv) m) ` set kvs2"
    and "map_tag k m \<notin> (\<lambda>c. map_tag (tag c) m) ` set (children e)"
  shows "map_of (person_elem_to_dict e m) (map_tag k m) = Some (Scalar v)"
proof -
  have "map_of (attrib_loop m (attrib e) []) (map_tag k m) = Some (Scalar v)"
    unfolding attrib_loop_fold assms(1)
    using fold_update_last [where kf = "\<lambda>kv. map_tag (fst kv) m" and vf = "\<lambda>kv. Scalar (snd kv)"
        and x = "(k, v)" and ?xs2.0 = kvs2 and ?xs1.0 = kvs1 and d = "[]"] assms(2)
    by simp
  then show ?thesis
    using assms(3) by (simp add: person_elem_to_dict_def child_loop_fold fold_update_frame)
qed

lemma record_mem:
  assumes "(k, v) \<in> set (person_elem_to_dict e m)"
  shows "(\<exists>kv \<in> set (attrib e). k = map_tag (fst kv) m \<and> v = Scalar (snd kv)) \<or>
         (\<exists>c \<in> set (children e). k = map_tag (tag c) m \<and> v = child_value m c)"
proof -
  from assms have "(k, v) \<in> set (attrib_loop m (attrib e) []) \<or>
      (\<exists>c \<in> set (children e). k = map_tag (tag c) m \<and> v = child_value m c)"
    unfolding person_elem_to_dict_def child_loop_fold by (rule fold_update_mem)
  moreover have "\<exists>kv \<in> set (attrib e). k = map_tag (fst kv) m \<and> v = Scalar (snd kv)"
    if "(k, v) \<in> set (attrib_loop m (attrib e) [])"
    using fold_update_mem [of k v "\<lambda>kv. map_tag (fst kv) m" "\<lambda>kv. Scalar (snd kv)" "attrib e" "[]"] that
    by (simp add: attrib_loop_fold)
  ultimately show ?thesis by blast
qed

lemma record_sub:
  assumes "(k, Sub sub) \<in> set (person_elem_to_dict e m)"
  shows "\<exists>c \<in> set (children e). k = map_tag (tag c) m \<and> children c \<noteq> [] \<and>
           sub = sub_loop m (children c) []"
  using record_mem [OF assms] by (auto simp: child_value_def split: if_splits)

lemma str_strip_trimmed:
  "str_strip s = [] \<or> (\<not> isspace_char (hd (str_strip s)) \<and> \<not> isspace_char (last (str_strip s)))"
proof (cases "str_strip s = []")
  case True
  then show ?thesis by simp
next
  case False
  define t where "t = dropWhile isspace_char s"
  define u where "u = dropWhile isspace_char (rev t)"
  have su: "str_strip s = rev u" by (simp add: str_strip_def t_def u_def)
  with False have une: "u \<noteq> []" by simp
  then have "\<not> isspace_char (hd u)" unfolding u_def by (rule hd_dropWhile)
  then have l: "\<not> isspace_char (last (str_strip s))" using une by (simp add: su last_rev)
  from une have tne: "t \<noteq> []" unfolding u_def by auto
  then have ht: "\<not> isspace_char (hd t)" unfolding t_def by (rule hd_dropWhile)
  from une obtain a where a: "rev t = a @ u" unfolding u_def
    by (metis takeWhile_dropWhile_id)
  then have "t = rev u @ rev a" by (metis rev_append rev_rev_ident)
  with une have "hd t = hd (rev u)" by simp
  with ht l show ?thesis by (simp add: su)
qed

lemma text_value_trimmed:
  "text_value t = [] \<or> (\<not> isspace_char (hd (text_value t)) \<and> \<not> isspace_char (last (text_value t)))"
  using str_strip_trimmed by (auto simp: text_value_def split: option.splits)

lemma str_strip_decomp:
  "\<exists>a b. s = a @ str_strip s @ b \<and> list_all isspace_char a \<and> list_all isspace_char b"
proof -
  define t where "t = dropWhile isspace_char s"
  have s: "s = takeWhile isspace_char s @ t" by (simp add: t_def)
  have "t = rev (rev t)" by simp
  also have "\<dots> = rev (takeWhile isspace_char (rev t) @ dropWhile isspace_char (rev t))"
    by (simp only: takeWhile_dropWhile_id)
  also have "\<dots> = str_strip s @ rev (takeWhile isspace_char (rev t))"
    by (simp only: rev_append str_strip_def t_def)
  finally have t: "t = str_strip s @ rev (takeWhile isspace_char (rev t))" .
  have w1: "list_all isspace_char (takeWhile isspace_char s)"
    by (simp add: list_all_iff) (meson set_takeWhileD)
  have w2: "list_all isspace_char (rev (takeWhile isspace_char (rev t)))"
    by (simp add: list_all_iff) (meson set_takeWhileD)
  from s t have "s = takeWhile isspace_char s @ str_strip s @ rev (takeWhile isspace_char (rev t))"
    by simp
  with w1 w2 show ?thesis by blast
qed

lemma text_value_decomp:
  "\<exists>a b. s = a @ text_value (Some s) @ b \<and> list_all isspace_char a \<and> list_all isspace_char b"
proof (cases "s = []")
  case True
  then show ?thesis by (simp add: text_value_def)
next
  case False
  then show ?thesis using str_strip_decomp [of s] by (simp add: text_value_def)
qed

text \<open>
  Claim C5, as amended.  When several attributes or children are translated to the same
  field name only the last assignment survives (children are assigned after attributes), so
  the statement is about the last attribute, child or grandchild of each translated name:
  such an attribute is a top-level scalar field holding its value, up to leading and
  trailing white space; such a child without children is a top-level scalar field holding
  its trimmed text (the empty text when it has none); such a child with children is a
  sub-mapping whose keys are the translated tags of its children and whose values are their
  trimmed texts, whatever children they have.  The record has no other keys.  A trimmed
  text is the text without a leading and a trailing run of white space.
\<close>

theorem projector_fields:
  "(attrib e = kvs1 @ (k, v) # kvs2 \<and>
      map_tag k m \<notin> (\<lambda>kv. map_tag (fst kv) m) ` set kvs2 \<and>
      map_tag k m \<notin> (\<lambda>c. map_tag (tag c) m) ` set (children e) \<longrightarrow>
        (\<exists>v'. map_of (person_elem_to_dict e m) (map_tag k m) = Some (Scalar v') \<and>
           str_strip v' = str_strip v)) \<and>
   (children e = cs1 @ c # cs2 \<and> map_tag (tag c) m \<notin> (\<lambda>c. map_tag (tag c) m) ` set cs2 \<and>
      children c = [] \<longrightarrow>
        map_of (person_elem_to_dict e m) (map_tag (tag c) m) = Some (Scalar (text_value (elem_text c)))) \<and>
   (children e = cs1 @ c # cs2 \<and> map_tag (tag c) m \<notin> (\<lambda>c. map_tag (tag c) m) ` set cs2 \<and>
      children c \<noteq> [] \<longrightarrow>
        (\<exists>sub. map_of (person_elem_to_dict e m) (map_tag (tag c) m) = Some (Sub sub) \<and>
           fst ` set sub = (\<lambda>g. map_tag (tag g) m) ` set (children c) \<and>
           (\<forall>gs1 g gs2. children c = gs1 @ g # gs2 \<and>
              map_tag (tag g) m \<notin> (\<lambda>g. map_tag (tag g) m) ` set gs2 \<longrightarrow>
                map_of sub (map_tag (tag g) m) = Some (text_value (elem_text g))))) \<and>
   fst ` set (person_elem_to_dict e m) =
     (\<lambda>kv. map_tag (fst kv) m) ` set (attrib e) \<union> (\<lambda>c. map_tag (tag c) m) ` set (children e) \<and>
   text_value None = [] \<and>
   (\<exists>a b. s = a @ text_value (Some s) @ b \<and> list_all isspace_char a \<and> list_all isspace_char b) \<and>
   (text_value (Some s) = [] \<or>
      (\<not> isspace_char (hd (text_value (Some s))) \<and> \<not> isspace_char (last (text_value (Some s)))))"
proof -
  let ?d = "person_elem_to_dict e m"
  have c1: "attrib e = kvs1 @ (k, v) # kvs2 \<and>
      map_tag k m \<notin> (\<lambda>kv. map_tag (fst kv) m) ` set kvs2 \<and>
      map_tag k m \<notin> (\<lambda>c. map_tag (tag c) m) ` set (children e) \<longrightarrow>
        (\<exists>v'. map_of ?d (map_tag k m) = Some (Scalar v') \<and> str_strip v' = str_strip v)"
  proof (intro impI, elim conjE)
    assume h: "attrib e = kvs1 @ (k, v) # kvs2"
      "map_tag k m \<notin> (\<lambda>kv. map_tag (fst kv) m) ` set kvs2"
      "map_tag k m \<notin> (\<lambda>c. map_tag (tag c) m) ` set (children e)"
    have "map_of ?d (map_tag k m) = Some (Scalar v)" using h by (rule record_attrib_last)
    then show "\<exists>v'. map_of ?d (map_tag k m) = Some (Scalar v') \<and> str_strip v' = str_strip v"
      by simp
  qed
  have c2: "children e = cs1 @ c # cs2 \<and> map_tag (tag c) m \<notin> (\<lambda>c. map_tag (tag c) m) ` set cs2 \<and>
      children c = [] \<longrightarrow>
        map_of ?d (map_tag (tag c) m) = Some (Scalar (text_value (elem_text c)))"
  proof (intro impI, elim conjE)
    assume h: "children e = cs1 @ c # cs2"
      "map_tag (tag c) m \<notin> (\<lambda>c. map_tag (tag c) m) ` set cs2" "children c = []"
    from h(3) have "child_value m c = Scalar (text_value (elem_text c))"
      by (simp add: child_value_def)
    with record_child_last [OF h(1) h(2)] show
      "map_of ?d (map_tag (tag c) m) = Some (Scalar (text_value (elem_text c)))" by simp
  qed
  have c3: "children e = cs1 @ c # cs2 \<and> map_tag (tag c) m \<notin> (\<lambda>c. map_tag (tag c) m) ` set cs2 \<and>
      children c \<noteq> [] \<longrightarrow>
        (\<exists>sub. map_of ?d (map_tag (tag c) m) = Some (Sub sub) \<and>
           fst ` set sub = (\<lambda>g. map_tag (tag g) m) ` set (children c) \<and>
           (\<forall>gs1 g gs2. children c = gs1 @ g # gs2 \<and>
              map_tag (tag g) m \<notin> (\<lambda>g. map_tag (tag g) m) ` set gs2 \<longrightarrow>
                map_of sub (map_tag (tag g) m) = Some (text_value (elem_text g))))"
  proof (intro impI, elim conjE)
    assume h: "children e = cs1 @ c # cs2"
      "map_tag (tag c) m \<notin> (\<lambda>c. map_tag (tag c) m) ` set cs2" "children c \<noteq> []"
    from h(3) have "child_value m c = Sub (sub_loop m (children c) [])"
      by (simp add: child_value_def)
    with record_child_last [OF h(1) h(2)]
    have 1: "map_of ?d (map_tag (tag c) m) = Some (Sub (sub_loop m (children c) []))" by simp
    have 2: "fst ` set (sub_loop m (children c) []) = (\<lambda>g. map_tag (tag g) m) ` set (children c)"
      by (rule sub_loop_keys)
    have 3: "\<forall>gs1 g gs2. children c = gs1 @ g # gs2 \<and>
              map_tag (tag g) m \<notin> (\<lambda>g. map_tag (tag g) m) ` set gs2 \<longrightarrow>
                map_of (sub_loop m (children c) []) (map_tag (tag g) m) = Some (text_value (elem_text g))"
      by (auto simp: sub_loop_last)
    from 1 2 3 show "\<exists>sub. map_of ?d (map_tag (tag c) m) = Some (Sub sub) \<and>
           fst ` set sub = (\<lambda>g. map_tag (tag g) m) ` set (children c) \<and>
           (\<forall>gs1 g gs2. children c = gs1 @ g # gs2 \<and>
              map_tag (tag g) m \<notin> (\<lambda>g. map_tag (tag g) m) ` set gs2 \<longrightarrow>
                map_of sub (map_tag (tag g) m) = Some (text_value (elem_text g)))"
      by blast
  qed
  have c4: "fst ` set ?d =
     (\<lambda>kv. map_tag (fst kv) m) ` set (attrib e) \<union> (\<lambda>c. map_tag (tag c) m) ` set (children e)"
    by (rule record_keys)
  have c5: "text_value None = []" by (simp add: text_value_def)
  have c6: "\<exists>a b. s = a @ text_value (Some s) @ b \<and> list_all isspace_char a \<and> list_all isspace_char b"
    by (rule text_value_decomp)
  have c7: "text_value (Some s) = [] \<or>
      (\<not> isspace_char (hd (text_value (Some s))) \<and> \<not> isspace_char (last (text_value (Some s))))"
    by (rule text_value_trimmed)
  from c1 c2 c3 c4 c5 c6 c7 show ?thesis by (intro conjI)
qed

theorem projector_fields_witness:
  "(\<exists>v'. map_of (person_elem_to_dict sample_person birth_to_dob) ''id'' = Some (Scalar v') \<and>
      str_strip v' = ''7'') \<and>
   map_of (person_elem_to_dict sample_person birth_to_dob) ''dob'' = Some (Scalar ''1990-01-01'') \<and>
   (\<exists>sub. map_of (person_elem_to_dict sample_person birth_to_dob) ''address'' = Some (Sub sub) \<and>
      fst ` set sub = {''city''} \<and> map_of sub ''city'' = Some ''X'') \<and>
   fst ` set (person_elem_to_dict sample_person birth_to_dob) = {''id'', ''dob'', ''address''}"
proof -
  have ws: "text_value (Some '' 1990-01-01 '') = ''1990-01-01''" "text_value (Some ''X '') = ''X''"
    "str_strip ''7'' = ''7''"
    by (simp_all add: text_value_def str_strip_def isspace_char_def)
  have tags: "map_tag ''id'' birth_to_dob = ''id''" "map_tag ''birth'' birth_to_dob = ''dob''"
    "map_tag ''address'' birth_to_dob = ''address''" "map_tag ''city'' birth_to_dob = ''city''"
    by (simp_all add: birth_to_dob_def map_tag_def)
  have sp: "attrib sample_person = [] @ (''id'', ''7'') # []"
    "children sample_person = [] @ sample_birth # [sample_address]"
    "children sample_person = [sample_birth] @ sample_address # []"
    by (simp_all add: sample_person_def sample_birth_def sample_address_def sample_city_def)
  have sel: "tag sample_birth = ''birth''" "children sample_birth = []"
    "elem_text sample_birth = Some '' 1990-01-01 ''"
    "tag sample_address = ''address''" "children sample_address = [] @ sample_city # []"
    "tag sample_city = ''city''" "elem_text sample_city = Some ''X ''"
    by (simp_all add: sample_birth_def sample_address_def sample_city_def)
  have h1: "attrib sample_person = [] @ (''id'', ''7'') # [] \<and>
      map_tag ''id'' birth_to_dob \<notin> (\<lambda>kv. map_tag (fst kv) birth_to_dob) ` set [] \<and>
      map_tag ''id'' birth_to_dob \<notin> (\<lambda>c. map_tag (tag c) birth_to_dob) ` set (children sample_person)"
    using sp(1) by (simp add: sp(2) sel tags)
  have a: "\<exists>v'. map_of (person_elem_to_dict sample_person birth_to_dob) ''id'' = Some (Scalar v') \<and>
      str_strip v' = ''7''"
    using projector_fields [where e = sample_person and m = birth_to_dob and ?kvs1.0 = "[]"
        and k = "''id''" and v = "''7''" and ?kvs2.0 = "[]", THEN conjunct1, THEN mp, OF h1]
    by (simp only: tags ws)
  have h2: "children sample_person = [] @ sample_birth # [sample_address] \<and>
      map_tag (tag sample_birth) birth_to_dob \<notin> (\<lambda>c. map_tag (tag c) birth_to_dob) ` set [sample_address] \<and>
      children sample_birth = []"
    using sp(2) by (simp add: sel tags)
  have b: "map_of (person_elem_to_dict sample_person birth_to_dob) ''dob'' = Some (Scalar ''1990-01-01'')"
    using projector_fields [where e = sample_person and m = birth_to_dob and ?cs1.0 = "[]"
        and c = sample_birth and ?cs2.0 = "[sample_address]",
        THEN conjunct2, THEN conjunct1, THEN mp, OF h2]
    by (simp add: sel tags ws)
  have h3: "children sample_person = [sample_birth] @ sample_address # [] \<and>
      map_tag (tag sample_address) birth_to_dob \<notin> (\<lambda>c. map_tag (tag c) birth_to_dob) ` set [] \<and>
      children sample_address \<noteq> []"
    using sp(3) by (simp add: sel)
  obtain sub where s1: "map_of (person_elem_to_dict sample_person birth_to_dob)
        (map_tag (tag sample_address) birth_to_dob) = Some (Sub sub)"
    and s2: "fst ` set sub = (\<lambda>g. map_tag (tag g) birth_to_dob) ` set (children sample_address)"
    and s3: "\<forall>gs1 g gs2. children sample_address = gs1 @ g # gs2 \<and>
              map_tag (tag g) birth_to_dob \<notin> (\<lambda>g. map_tag (tag g) birth_to_dob) ` set gs2 \<longrightarrow>
                map_of sub (map_tag (tag g) birth_to_dob) = Some (text_value (elem_text g))"
    using projector_fields [where e = sample_person and m = birth_to_dob
        and ?cs1.0 = "[sample_birth]" and c = sample_address and ?cs2.0 = "[]",
        THEN conjunct2, THEN conjunct2, THEN conjunct1, THEN mp, OF h3]
    by blast
  have h4: "children sample_address = [] @ sample_city # [] \<and>
      map_tag (tag sample_city) birth_to_dob \<notin> (\<lambda>g. map_tag (tag g) birth_to_dob) ` set []"
    using sel(5) by simp
  from s3 have "children sample_address = [] @ sample_city # [] \<and>
      map_tag (tag sample_city) birth_to_dob \<notin> (\<lambda>g. map_tag (tag g) birth_to_dob) ` set [] \<longrightarrow>
        map_of sub (map_tag (tag sample_city) birth_to_dob) = Some (text_value (elem_text sample_city))"
    by blast
  with h4 have c3: "map_of sub ''city'' = Some ''X''" by (simp add: sel tags ws)
  from s1 have c1: "map_of (person_elem_to_dict sample_person birth_to_dob) ''address'' = Some (Sub sub)"
    by (simp add: sel tags)
  from s2 have c2: "fst ` set sub = {''city''}" by (simp add: sel tags)
  have ks: "(\<lambda>kv. map_tag (fst kv) birth_to_dob) ` set (attrib sample_person) \<union>
      (\<lambda>c. map_tag (tag c) birth_to_dob) ` set (children sample_person) = {''id'', ''dob'', ''address''}"
    by (auto simp: sample_person_def tags)
  have d: "fst ` set (person_elem_to_dict sample_person birth_to_dob) = {''id'', ''dob'', ''address''}"
    using projector_fields [where e = sample_person and m = birth_to_dob,
        THEN conjunct2, THEN conjunct2, THEN conjunct2, THEN conjunct1]
    by (simp only: ks)
  from c1 c2 c3 have e: "\<exists>sub. map_of (person_elem_to_dict sample_person birth_to_dob) ''address'' = Some (Sub sub) \<and>
      fst ` set sub = {''city''} \<and> map_of sub ''city'' = Some ''X''" by blast
  show ?thesis by (rule conjI [OF a conjI [OF b conjI [OF e d]]])
qed

theorem projector_fields_counterexample:
  "children two_phones =
     [Element ''phone'' [] (Some ''1'') [], Element ''phone'' [] (Some ''2'') []] \<and>
   person_elem_to_dict two_phones Map.empty = [(''phone'', Scalar ''2'')] \<and>
   map_of (person_elem_to_dict two_phones Map.empty) (map_tag ''phone'' Map.empty)
     \<noteq> Some (Scalar (text_value (Some ''1''))) \<and>
   attrib padded_attribute = [(''birth'', ''1-1-1755 '')] \<and>
   person_elem_to_dict padded_attribute Map.empty = [(''birth'', Scalar ''1-1-1755 '')] \<and>
   str_strip ''1-1-1755 '' = ''1-1-1755'' \<and>
   person_elem_to_dict padded_child Map.empty = [(''birth'', Scalar ''1-1-1755'')]"
  by (simp add: two_phones_def padded_attribute_def padded_child_def person_elem_to_dict_def
      child_value_def map_tag_def text_value_def str_strip_def isspace_char_def)

lemma map_tag_empty [simp]: "map_tag t Map.empty = t"
  by (simp add: map_tag_def)



lemma map_tag_nonempty: "t \<noteq> [] \<Longrightarrow> [] \<notin> ran m \<Longrightarrow> map_tag t m \<noteq> []"
  by (auto simp: map_tag_def ran_def split: option.splits)

text \<open>
  Claim C7, as amended.  The keys of the record and of every sub-mapping are unique, for
  every mapping table.  No key is empty provided that no target of the table is empty (and
  that the names in the element are not empty, as the names of an XML document are): the
  projector copies an empty target into the record.
\<close>

theorem record_keys_unique:
  "distinct (map fst (person_elem_to_dict e m)) \<and>
   (\<forall>k sub. (k, Sub sub) \<in> set (person_elem_to_dict e m) \<longrightarrow> distinct (map fst sub)) \<and>
   ([] \<notin> ran m \<and> (\<forall>kv \<in> set (attrib e). fst kv \<noteq> []) \<and>
      (\<forall>c \<in> set (children e). tag c \<noteq> [] \<and> (\<forall>g \<in> set (children c). tag g \<noteq> [])) \<longrightarrow>
        [] \<notin> fst ` set (person_elem_to_dict e m) \<and>
        (\<forall>k sub. (k, Sub sub) \<in> set (person_elem_to_dict e m) \<longrightarrow> [] \<notin> fst ` set sub))"
proof -
  have a: "distinct (map fst (person_elem_to_dict e m))" by (rule record_distinct)
  have b: "distinct (map fst sub)" if "(k, Sub sub) \<in> set (person_elem_to_dict e m)" for k sub
    using record_sub [OF that] by (auto simp: sub_loop_distinct)
  have c: "[] \<notin> fst ` set (person_elem_to_dict e m) \<and>
        (\<forall>k sub. (k, Sub sub) \<in> set (person_elem_to_dict e m) \<longrightarrow> [] \<notin> fst ` set sub)"
    if r: "[] \<notin> ran m" and at: "\<forall>kv \<in> set (attrib e). fst kv \<noteq> []"
      and ch: "\<forall>c \<in> set (children e). tag c \<noteq> [] \<and> (\<forall>g \<in> set (children c). tag g \<noteq> [])"
  proof (intro conjI allI impI)
    have ne: "map_tag t m \<noteq> []" if "t \<noteq> []" for t
      using that r by (rule map_tag_nonempty)
    show "[] \<notin> fst ` set (person_elem_to_dict e m)"
    proof
      assume "[] \<in> fst ` set (person_elem_to_dict e m)"
      then consider kv where "kv \<in> set (attrib e)" "[] = map_tag (fst kv) m"
        | c where "c \<in> set (children e)" "[] = map_tag (tag c) m"
        unfolding record_keys by auto
      then show False
      proof cases
        case 1
        with at ne [of "fst kv"] show False by force
      next
        case 2
        with ch ne [of "tag c"] show False by force
      qed
    qed
    fix k sub
    assume "(k, Sub sub) \<in> set (person_elem_to_dict e m)"
    from record_sub [OF this] obtain c where c: "c \<in> set (children e)"
      "sub = sub_loop m (children c) []" by auto
    from c(1) ch have g: "\<forall>g \<in> set (children c). tag g \<noteq> []" by blast
    show "[] \<notin> fst ` set sub"
    proof
      assume "[] \<in> fst ` set sub"
      then obtain g where "g \<in> set (children c)" "[] = map_tag (tag g) m"
        unfolding c(2) sub_loop_keys by auto
      with g ne [of "tag g"] show False by force
    qed
  qed
  from a b c show ?thesis by blast
qed

theorem record_keys_unique_counterexample:
  "empty_target ''name'' = Some [] \<and>
   person_elem_to_dict named_person empty_target = [([], Scalar ''A'')]"
  by (simp add: empty_target_def named_person_def person_elem_to_dict_def child_value_def
      map_tag_def text_value_def str_strip_def isspace_char_def)

theorem record_keys_unique_witness:
  "distinct (map fst (person_elem_to_dict sample_person birth_to_dob)) \<and>
   distinct (map fst [(''city'', ''X'')]) \<and>
   [] \<notin> fst ` set (person_elem_to_dict sample_person birth_to_dob) \<and>
   [] \<notin> fst ` set [(''city'', ''X'')]"
proof -
  have d: "person_elem_to_dict sample_person birth_to_dob =
      [(''id'', Scalar ''7''), (''dob'', Scalar ''1990-01-01''), (''address'', Sub [(''city'', ''X'')])]"
    by (simp add: sample_person_def birth_to_dob_def person_elem_to_dict_def child_value_def
        map_tag_def text_value_def str_strip_def isspace_char_def)
  have mem: "(''address'', Sub [(''city'', ''X'')]) \<in> set (person_elem_to_dict sample_person birth_to_dob)"
    by (simp add: d)
  have h: "[] \<notin> ran birth_to_dob \<and> (\<forall>kv \<in> set (attrib sample_person). fst kv \<noteq> []) \<and>
      (\<forall>c \<in> set (children sample_person). tag c \<noteq> [] \<and> (\<forall>g \<in> set (children c). tag g \<noteq> []))"
    by (simp add: sample_person_def birth_to_dob_def)
  note th = record_keys_unique [where e = sample_person and m = birth_to_dob]
  have 1: "distinct (map fst (person_elem_to_dict sample_person birth_to_dob))"
    using th by (rule conjunct1)
  have 2: "distinct (map fst [(''city'', ''X'')])"
    using th [THEN conjunct2, THEN conjunct1, THEN spec, THEN spec, THEN mp, OF mem] .
  note 3 = th [THEN conjunct2, THEN conjunct2, THEN mp, OF h]
  have 4: "[] \<notin> fst ` set [(''city'', ''X'')]"
    using 3 [THEN conjunct2, THEN spec, THEN spec, THEN mp, OF mem] .
  from 1 2 3 [THEN conjunct1] 4 show ?thesis by (intro conjI)
qed

lemma map_tag_birth_to_dob: "map_tag t birth_to_dob = (if t = ''birth'' then ''dob'' else t)"
  by (simp add: map_tag_def birth_to_dob_def)

lemma record_no_birth: "''birth'' \<notin> fst ` set (person_elem_to_dict e birth_to_dob)"
  unfolding record_keys by (auto simp: map_tag_birth_to_dob split: if_splits)

lemma is_year_not_unknown: "is_year y \<Longrightarrow> y \<noteq> ''unknown''"
  by (auto simp: is_year_def)

text \<open>
  Claim C8, as amended.  Under the mapping from \<open>birth\<close> to \<open>dob\<close> no record has
  the field \<open>birth\<close>, and every record of an element with a \<open>birth\<close> attribute or a
  \<open>birth\<close> child has the field \<open>dob\<close>.  When the candidate list fails (none of the
  other four candidate names is a field of the record) the date is read under the mapped
  name, and the partition key is the one the resolver gives for the field \<open>dob\<close>.  That
  field is the projection of a \<open>birth\<close> child that no later child tagged \<open>birth\<close>
  or \<open>dob\<close> follows, which is its trimmed text when it has no children; it holds, up
  to leading and trailing white space, the value of a \<open>birth\<close> attribute that no later
  attribute named \<open>birth\<close> or \<open>dob\<close> follows, in an element without a child tagged
  \<open>birth\<close> or \<open>dob\<close>.  In both cases, when the candidate list fails and the text or
  the value has a year run, the partition key is its leftmost year run and not
  \<open>unknown\<close>.
\<close>

theorem birth_mapped_to_dob:
  "''birth'' \<notin> fst ` set (person_elem_to_dict e birth_to_dob) \<and>
   (''birth'' \<in> fst ` set (attrib e) \<or> ''birth'' \<in> tag ` set (children e) \<longrightarrow>
      ''dob'' \<in> fst ` set (person_elem_to_dict e birth_to_dob)) \<and>
   ((\<forall>k \<in> {''fecha'', ''fechaNacimiento'', ''birthdate'', ''birth_date''}.
        map_of (person_elem_to_dict e birth_to_dob) k = None) \<longrightarrow>
      candidate_loop candidates (person_elem_to_dict e birth_to_dob) = None \<and>
      birth_val birth_to_dob (person_elem_to_dict e birth_to_dob) =
        map_of (person_elem_to_dict e birth_to_dob) (map_tag ''birth'' birth_to_dob) \<and>
      map_tag ''birth'' birth_to_dob = ''dob'' \<and>
      year_str sd birth_to_dob (person_elem_to_dict e birth_to_dob) =
        year_of sd (map_of (person_elem_to_dict e birth_to_dob) ''dob'')) \<and>
   (children e = cs1 @ c # cs2 \<and> tag c = ''birth'' \<and>
      (\<forall>x \<in> set cs2. tag x \<noteq> ''birth'' \<and> tag x \<noteq> ''dob'') \<longrightarrow>
        map_of (person_elem_to_dict e birth_to_dob) ''dob'' = Some (child_value birth_to_dob c)) \<and>
   (children e = cs1 @ c # cs2 \<and> tag c = ''birth'' \<and> children c = [] \<and>
      (\<forall>x \<in> set cs2. tag x \<noteq> ''birth'' \<and> tag x \<noteq> ''dob'') \<longrightarrow>
        map_of (person_elem_to_dict e birth_to_dob) ''dob'' = Some (Scalar (text_value (elem_text c))) \<and>
        (\<forall>i. (\<forall>k \<in> {''fecha'', ''fechaNacimiento'', ''birthdate'', ''birth_date''}.
                map_of (person_elem_to_dict e birth_to_dob) k = None) \<and>
             year_at (text_value (elem_text c)) i \<and> (\<forall>j<i. \<not> year_at (text_value (elem_text c)) j) \<longrightarrow>
               year_str sd birth_to_dob (person_elem_to_dict e birth_to_dob) =
                 take 4 (drop i (text_value (elem_text c))) \<and>
               year_str sd birth_to_dob (person_elem_to_dict e birth_to_dob) \<noteq> ''unknown'')) \<and>
   (attrib e = kvs1 @ (''birth'', v) # kvs2 \<and>
      (\<forall>kv \<in> set kvs2. fst kv \<noteq> ''birth'' \<and> fst kv \<noteq> ''dob'') \<and>
      (\<forall>x \<in> set (children e). tag x \<noteq> ''birth'' \<and> tag x \<noteq> ''dob'') \<longrightarrow>
        (\<exists>v'. map_of (person_elem_to_dict e birth_to_dob) ''dob'' = Some (Scalar v') \<and>
           str_strip v' = str_strip v) \<and>
        (\<forall>i. (\<forall>k \<in> {''fecha'', ''fechaNacimiento'', ''birthdate'', ''birth_date''}.
                map_of (person_elem_to_dict e birth_to_dob) k = None) \<and>
             year_at v i \<and> (\<forall>j<i. \<not> year_at v j) \<longrightarrow>
               year_str sd birth_to_dob (person_elem_to_dict e birth_to_dob) = take 4 (drop i v) \<and>
               year_str sd birth_to_dob (person_elem_to_dict e birth_to_dob) \<noteq> ''unknown''))"
proof -
  let ?d = "person_elem_to_dict e birth_to_dob"
  let ?others = "\<forall>k \<in> {''fecha'', ''fechaNacimiento'', ''birthdate'', ''birth_date''}. map_of ?d k = None"
  have 1: "''birth'' \<notin> fst ` set ?d" by (rule record_no_birth)
  have 2: "''birth'' \<in> fst ` set (attrib e) \<or> ''birth'' \<in> tag ` set (children e) \<longrightarrow>
      ''dob'' \<in> fst ` set ?d"
    unfolding record_keys by (force simp: map_tag_birth_to_dob)
  from 1 have nb: "map_of ?d ''birth'' = None" by (simp add: map_of_eq_None_iff)
  have mt: "map_tag ''birth'' birth_to_dob = ''dob''" by (simp add: map_tag_birth_to_dob)
  have cl: "candidate_loop candidates ?d = None" if ?others
    using that nb by (simp add: candidates_def)
  have ys: "year_str sd birth_to_dob ?d = year_of sd (map_of ?d ''dob'')" if ?others
    using cl [OF that] by (simp add: year_str_def birth_val_def mt)
  have 3: "?others \<longrightarrow>
      candidate_loop candidates ?d = None \<and>
      birth_val birth_to_dob ?d = map_of ?d (map_tag ''birth'' birth_to_dob) \<and>
      map_tag ''birth'' birth_to_dob = ''dob'' \<and>
      year_str sd birth_to_dob ?d = year_of sd (map_of ?d ''dob'')"
  proof
    assume o: ?others
    from cl [OF o] have "birth_val birth_to_dob ?d = map_of ?d (map_tag ''birth'' birth_to_dob)"
      by (simp add: birth_val_def)
    with cl [OF o] mt ys [OF o] show "candidate_loop candidates ?d = None \<and>
      birth_val birth_to_dob ?d = map_of ?d (map_tag ''birth'' birth_to_dob) \<and>
      map_tag ''birth'' birth_to_dob = ''dob'' \<and>
      year_str sd birth_to_dob ?d = year_of sd (map_of ?d ''dob'')"
      by (intro conjI)
  qed
  have run: "year_str sd birth_to_dob ?d = take 4 (drop i t) \<and> year_str sd birth_to_dob ?d \<noteq> ''unknown''"
    if o: ?others and t: "map_of ?d ''dob'' = Some (Scalar t)"
      and y: "year_at t i" "\<forall>j<i. \<not> year_at t j" for t i
  proof -
    from y have "year_of sd (Some (Scalar t)) = take 4 (drop i t)" by (rule year_of_run)
    moreover from y(1) have "take 4 (drop i t) \<noteq> ''unknown''"
      by (auto simp: year_at_def dest: is_year_not_unknown)
    ultimately show ?thesis using ys [OF o] t by simp
  qed
  have d0: "children e = cs1 @ c # cs2 \<and> tag c = ''birth'' \<and>
      (\<forall>x \<in> set cs2. tag x \<noteq> ''birth'' \<and> tag x \<noteq> ''dob'') \<longrightarrow>
        map_of ?d ''dob'' = Some (child_value birth_to_dob c)"
  proof (intro impI, elim conjE)
    assume h: "children e = cs1 @ c # cs2" "tag c = ''birth''"
      "\<forall>x \<in> set cs2. tag x \<noteq> ''birth'' \<and> tag x \<noteq> ''dob''"
    have "map_tag (tag c) birth_to_dob \<notin> (\<lambda>c. map_tag (tag c) birth_to_dob) ` set cs2"
      using h(2,3) by (auto simp: map_tag_birth_to_dob split: if_splits)
    from record_child_last [OF h(1) this]
    show "map_of ?d ''dob'' = Some (child_value birth_to_dob c)"
      using h(2) by (simp add: map_tag_birth_to_dob)
  qed
  have 4: "children e = cs1 @ c # cs2 \<and> tag c = ''birth'' \<and> children c = [] \<and>
      (\<forall>x \<in> set cs2. tag x \<noteq> ''birth'' \<and> tag x \<noteq> ''dob'') \<longrightarrow>
        map_of ?d ''dob'' = Some (Scalar (text_value (elem_text c))) \<and>
        (\<forall>i. ?others \<and>
             year_at (text_value (elem_text c)) i \<and> (\<forall>j<i. \<not> year_at (text_value (elem_text c)) j) \<longrightarrow>
               year_str sd birth_to_dob ?d = take 4 (drop i (text_value (elem_text c))) \<and>
               year_str sd birth_to_dob ?d \<noteq> ''unknown'')"
  proof (intro impI, elim conjE)
    assume h: "children e = cs1 @ c # cs2" "tag c = ''birth''" "children c = []"
      "\<forall>x \<in> set cs2. tag x \<noteq> ''birth'' \<and> tag x \<noteq> ''dob''"
    have "map_tag (tag c) birth_to_dob \<notin> (\<lambda>c. map_tag (tag c) birth_to_dob) ` set cs2"
      using h(2,4) by (auto simp: map_tag_birth_to_dob split: if_splits)
    from record_child_last [OF h(1) this]
    have t: "map_of ?d ''dob'' = Some (Scalar (text_value (elem_text c)))"
      using h(2,3) by (simp add: map_tag_birth_to_dob child_value_def)
    have "year_str sd birth_to_dob ?d = take 4 (drop i (text_value (elem_text c))) \<and>
               year_str sd birth_to_dob ?d \<noteq> ''unknown''"
      if "?others \<and> year_at (text_value (elem_text c)) i \<and> (\<forall>j<i. \<not> year_at (text_value (elem_text c)) j)"
      for i
      using that t by (intro run) simp_all
    with t show "map_of ?d ''dob'' = Some (Scalar (text_value (elem_text c))) \<and>
        (\<forall>i. ?others \<and>
             year_at (text_value (elem_text c)) i \<and> (\<forall>j<i. \<not> year_at (text_value (elem_text c)) j) \<longrightarrow>
               year_str sd birth_to_dob ?d = take 4 (drop i (text_value (elem_text c))) \<and>
               year_str sd birth_to_dob ?d \<noteq> ''unknown'')"
      by blast
  qed
  have 5: "attrib e = kvs1 @ (''birth'', v) # kvs2 \<and>
      (\<forall>kv \<in> set kvs2. fst kv \<noteq> ''birth'' \<and> fst kv \<noteq> ''dob'') \<and>
      (\<forall>x \<in> set (children e). tag x \<noteq> ''birth'' \<and> tag x \<noteq> ''dob'') \<longrightarrow>
        (\<exists>v'. map_of ?d ''dob'' = Some (Scalar v') \<and> str_strip v' = str_strip v) \<and>
        (\<forall>i. ?others \<and> year_at v i \<and> (\<forall>j<i. \<not> year_at v j) \<longrightarrow>
               year_str sd birth_to_dob ?d = take 4 (drop i v) \<and>
               year_str sd birth_to_dob ?d \<noteq> ''unknown'')"
  proof (intro impI, elim conjE)
    assume h: "attrib e = kvs1 @ (''birth'', v) # kvs2"
      "\<forall>kv \<in> set kvs2. fst kv \<noteq> ''birth'' \<and> fst kv \<noteq> ''dob''"
      "\<forall>x \<in> set (children e). tag x \<noteq> ''birth'' \<and> tag x \<noteq> ''dob''"
    have n1: "map_tag ''birth'' birth_to_dob \<notin> (\<lambda>kv. map_tag (fst kv) birth_to_dob) ` set kvs2"
      using h(2) by (auto simp: map_tag_birth_to_dob split: if_splits)
    have n2: "map_tag ''birth'' birth_to_dob \<notin> (\<lambda>c. map_tag (tag c) birth_to_dob) ` set (children e)"
      using h(3) by (auto simp: map_tag_birth_to_dob split: if_splits)
    from record_attrib_last [OF h(1) n1 n2]
    have t: "map_of ?d ''dob'' = Some (Scalar v)" by (simp add: mt)
    have "year_str sd birth_to_dob ?d = take 4 (drop i v) \<and> year_str sd birth_to_dob ?d \<noteq> ''unknown''"
      if "?others \<and> year_at v i \<and> (\<forall>j<i. \<not> year_at v j)" for i
      using that t by (intro run) simp_all
    with t show "(\<exists>v'. map_of ?d ''dob'' = Some (Scalar v') \<and> str_strip v' = str_strip v) \<and>
        (\<forall>i. ?others \<and> year_at v i \<and> (\<forall>j<i. \<not> year_at v j) \<longrightarrow>
               year_str sd birth_to_dob ?d = take 4 (drop i v) \<and>
               year_str sd birth_to_dob ?d \<noteq> ''unknown'')"
      by blast
  qed
  show ?thesis by (rule conjI [OF 1 conjI [OF 2 conjI [OF 3 conjI [OF d0 conjI [OF 4 5]]]]])
qed

theorem birth_mapped_to_dob_counterexample:
  "children birth_and_dob =
     [Element ''birth'' [] (Some ''1990-01-01'') [], Element ''dob'' [] (Some ''n/a'') []] \<and>
   person_elem_to_dict birth_and_dob birth_to_dob = [(''dob'', Scalar ''n/a'')] \<and>
   candidate_loop candidates (person_elem_to_dict birth_and_dob birth_to_dob) = None \<and>
   year_str (\<lambda>d. []) birth_to_dob (person_elem_to_dict birth_and_dob birth_to_dob) = ''unknown'' \<and>
   year_of (\<lambda>d. []) (Some (Scalar ''1990-01-01'')) = ''1990''"
proof -
  have d: "person_elem_to_dict birth_and_dob birth_to_dob = [(''dob'', Scalar ''n/a'')]"
    by (simp add: birth_and_dob_def birth_to_dob_def person_elem_to_dict_def child_value_def
        map_tag_def text_value_def str_strip_def isspace_char_def)
  have c: "candidate_loop candidates [(''dob'', Scalar ''n/a'')] = None"
    by (simp add: candidates_def)
  have x: "extract_year_from_birth ''n/a'' = None"
    by (simp add: extract_year_from_birth_def str_split_def str_isdigit_def)
  have y: "year_str (\<lambda>d. []) birth_to_dob [(''dob'', Scalar ''n/a'')] = ''unknown''"
    by (simp add: year_str_def birth_val_def c year_of_def date_text_def x map_tag_birth_to_dob)
  have z: "year_of (\<lambda>d. []) (Some (Scalar ''1990-01-01'')) = ''1990''"
    by (simp add: year_of_def date_text_def extract_year_from_birth_def is_decimal_def)
  show ?thesis by (simp add: d c y z) (simp add: birth_and_dob_def)
qed

theorem birth_mapped_to_dob_witness:
  "''birth'' \<notin> fst ` set (person_elem_to_dict sample_person birth_to_dob) \<and>
   ''dob'' \<in> fst ` set (person_elem_to_dict sample_person birth_to_dob) \<and>
   candidate_loop candidates (person_elem_to_dict sample_person birth_to_dob) = None \<and>
   map_of (person_elem_to_dict sample_person birth_to_dob) ''dob'' =
     Some (child_value birth_to_dob sample_birth) \<and>
   map_of (person_elem_to_dict sample_person birth_to_dob) ''dob'' = Some (Scalar ''1990-01-01'') \<and>
   year_str (\<lambda>d. []) birth_to_dob (person_elem_to_dict sample_person birth_to_dob) = ''1990'' \<and>
   ''birth'' \<notin> fst ` set (person_elem_to_dict birth_attribute birth_to_dob) \<and>
   ''dob'' \<in> fst ` set (person_elem_to_dict birth_attribute birth_to_dob) \<and>
   (\<exists>v'. map_of (person_elem_to_dict birth_attribute birth_to_dob) ''dob'' = Some (Scalar v') \<and>
      str_strip v' = ''1990-01-01'') \<and>
   year_str (\<lambda>d. []) birth_to_dob (person_elem_to_dict birth_attribute birth_to_dob) = ''1990''"
proof -
  let ?d = "person_elem_to_dict sample_person birth_to_dob"
  let ?a = "person_elem_to_dict birth_attribute birth_to_dob"
  have d: "?d = [(''id'', Scalar ''7''), (''dob'', Scalar ''1990-01-01''), (''address'', Sub [(''city'', ''X'')])]"
    by (simp add: sample_person_def birth_to_dob_def person_elem_to_dict_def child_value_def
        map_tag_def text_value_def str_strip_def isspace_char_def)
  have a: "?a = [(''dob'', Scalar ''1990-01-01''), (''id'', Scalar ''7'')]"
    by (simp add: birth_attribute_def birth_to_dob_def person_elem_to_dict_def map_tag_def)
  have od: "\<forall>k \<in> {''fecha'', ''fechaNacimiento'', ''birthdate'', ''birth_date''}. map_of ?d k = None"
    by (simp add: d)
  have oa: "\<forall>k \<in> {''fecha'', ''fechaNacimiento'', ''birthdate'', ''birth_date''}. map_of ?a k = None"
    by (simp add: a)
  have y: "year_at ''1990-01-01'' 0" "\<forall>j<0. \<not> year_at ''1990-01-01'' j"
    by (simp_all add: year_at_def is_year_def is_decimal_def)
  have t: "text_value (elem_text sample_birth) = ''1990-01-01''"
    by (simp add: sample_birth_def text_value_def str_strip_def isspace_char_def)
  have st: "str_strip ''1990-01-01'' = ''1990-01-01''"
    by (simp add: str_strip_def isspace_char_def)
  note thd = birth_mapped_to_dob [where e = sample_person and sd = "\<lambda>d. []" and ?cs1.0 = "[]"
      and c = sample_birth and ?cs2.0 = "[sample_address]"]
  note tha = birth_mapped_to_dob [where e = birth_attribute and sd = "\<lambda>d. []" and ?kvs1.0 = "[]"
      and v = "''1990-01-01''" and ?kvs2.0 = "[(''id'', ''7'')]"]
  have 1: "''birth'' \<notin> fst ` set ?d" using thd by (rule conjunct1)
  have hb: "''birth'' \<in> fst ` set (attrib sample_person) \<or> ''birth'' \<in> tag ` set (children sample_person)"
    by (simp add: sample_person_def)
  have 2: "''dob'' \<in> fst ` set ?d"
    using thd [THEN conjunct2, THEN conjunct1, THEN mp, OF hb] .
  have 3: "candidate_loop candidates ?d = None"
    using thd [THEN conjunct2, THEN conjunct2, THEN conjunct1, THEN mp, OF od] by (rule conjunct1)
  have hc: "children sample_person = [] @ sample_birth # [sample_address] \<and> tag sample_birth = ''birth'' \<and>
      children sample_birth = [] \<and> (\<forall>x \<in> set [sample_address]. tag x \<noteq> ''birth'' \<and> tag x \<noteq> ''dob'')"
    by (simp add: sample_person_def sample_birth_def sample_address_def sample_city_def)
  have hc0: "children sample_person = [] @ sample_birth # [sample_address] \<and> tag sample_birth = ''birth'' \<and>
      (\<forall>x \<in> set [sample_address]. tag x \<noteq> ''birth'' \<and> tag x \<noteq> ''dob'')"
    using hc by simp
  have w3: "map_of ?d ''dob'' = Some (child_value birth_to_dob sample_birth)"
    using thd [THEN conjunct2, THEN conjunct2, THEN conjunct2, THEN conjunct1, THEN mp, OF hc0] .
  note c4 = thd [THEN conjunct2, THEN conjunct2, THEN conjunct2, THEN conjunct2, THEN conjunct1,
      THEN mp, OF hc, unfolded t]
  have 4: "map_of ?d ''dob'' = Some (Scalar ''1990-01-01'')" using c4 by (rule conjunct1)
  have hy: "(\<forall>k \<in> {''fecha'', ''fechaNacimiento'', ''birthdate'', ''birth_date''}. map_of ?d k = None) \<and>
      year_at ''1990-01-01'' 0 \<and> (\<forall>j<0. \<not> year_at ''1990-01-01'' j)"
    using od y by (intro conjI)
  have 5: "year_str (\<lambda>d. []) birth_to_dob ?d = ''1990''"
    using c4 [THEN conjunct2, THEN spec, THEN mp, OF hy] by simp
  have 6: "''birth'' \<notin> fst ` set ?a" using tha by (rule conjunct1)
  have ha: "''birth'' \<in> fst ` set (attrib birth_attribute) \<or> ''birth'' \<in> tag ` set (children birth_attribute)"
    by (simp add: birth_attribute_def)
  have 7: "''dob'' \<in> fst ` set ?a"
    using tha [THEN conjunct2, THEN conjunct1, THEN mp, OF ha] .
  have hat: "attrib birth_attribute = [] @ (''birth'', ''1990-01-01'') # [(''id'', ''7'')] \<and>
      (\<forall>kv \<in> set [(''id'', ''7'')]. fst kv \<noteq> ''birth'' \<and> fst kv \<noteq> ''dob'') \<and>
      (\<forall>x \<in> set (children birth_attribute). tag x \<noteq> ''birth'' \<and> tag x \<noteq> ''dob'')"
    by (simp add: birth_attribute_def)
  note c5 = tha [THEN conjunct2, THEN conjunct2, THEN conjunct2, THEN conjunct2, THEN conjunct2,
      THEN mp, OF hat]
  have 8: "\<exists>v'. map_of ?a ''dob'' = Some (Scalar v') \<and> str_strip v' = ''1990-01-01''"
    using c5 [THEN conjunct1] by (simp only: st)
  have hz: "(\<forall>k \<in> {''fecha'', ''fechaNacimiento'', ''birthdate'', ''birth_date''}. map_of ?a k = None) \<and>
      year_at ''1990-01-01'' 0 \<and> (\<forall>j<0. \<not> year_at ''1990-01-01'' j)"
    using oa y by (intro conjI)
  have 9: "year_str (\<lambda>d. []) birth_to_dob ?a = ''1990''"
    using c5 [THEN conjunct2, THEN spec, THEN mp, OF hz] by simp
  show ?thesis
    by (rule conjI [OF 1 conjI [OF 2 conjI [OF 3 conjI [OF w3 conjI [OF 4 conjI [OF 5 conjI [OF 6
        conjI [OF 7 conjI [OF 8 9]]]]]]]]])
qed

section \<open>The writers and the orchestrator\<close>

lemma json_path_inj [simp]: "json_path od y = json_path od y' \<longleftrightarrow> y = y'"
  by (simp add: json_path_def)

lemma yaml_path_inj [simp]: "yaml_path od y = yaml_path od y' \<longleftrightarrow> y = y'"
  by (simp add: yaml_path_def)

lemma json_yaml_ne [simp]: "json_path od y \<noteq> yaml_path od y'" "yaml_path od y' \<noteq> json_path od y"
proof -
  have "y @ ''.json'' \<noteq> y' @ ''.yaml''"
  proof
    assume "y @ ''.json'' = y' @ ''.yaml''"
    then have "last (y @ ''.json'') = last (y' @ ''.yaml'')" by simp
    then show False by simp
  qed
  then show "json_path od y \<noteq> yaml_path od y'" "yaml_path od y' \<noteq> json_path od y"
    by (auto simp: json_path_def yaml_path_def)
qed

lemma records_for_snoc:
  "records_for y' (rs @ [(y, r)]) = (if y' = y then records_for y' rs @ [r] else records_for y' rs)"
  by (simp add: records_for_def)

lemma records_for_empty: "y \<notin> fst ` set rs \<Longrightarrow> records_for y rs = []"
  by (induction rs) (auto simp: records_for_def)

lemma records_for_nonempty: "y \<in> fst ` set rs \<Longrightarrow> records_for y rs \<noteq> []"
  by (induction rs) (auto simp: records_for_def)

lemma json_elements_snoc:
  "json_elements (rs @ [r]) =
     (if rs = [] then [JsonDump r] else json_elements rs @ [Text '',\<newline>'', JsonDump r])"
  by (cases rs) simp_all

lemma yaml_stream_snoc: "yaml_stream (rs @ [r]) = yaml_stream rs @ [YamlDump r, Text ''\<newline>'']"
  by (simp add: yaml_stream_def)
lemma py_open_Inr:
  assumes "py_open io_ok p fs = Inr fs1"
  shows "fs1 = fs(p \<mapsto> \<lparr>content = [],
                         opens = (case fs p of None \<Rightarrow> 1 | Some fl \<Rightarrow> opens fl + 1),
                         closes = (case fs p of None \<Rightarrow> 0 | Some fl \<Rightarrow> closes fl)\<rparr>)"
  using assms by (simp add: py_open_def split: if_splits)

lemma py_open_Inl:
  assumes "py_open io_ok p fs = Inl (e, fs1)"
  shows "e = OSError p \<and> fs1 = fs \<and> \<not> io_ok (IoOpen p) fs"
  using assms by (auto simp: py_open_def split: if_splits)

lemma py_open_ok: "io_ok (IoOpen p) fs \<Longrightarrow> \<exists>fs1. py_open io_ok p fs = Inr fs1"
  by (simp add: py_open_def)

lemma file_write_Inr:
  assumes "file_write io_ok p c fs = Inr fs1"
  shows "\<exists>fl. fs p = Some fl \<and> closes fl < opens fl \<and> fs1 = fs(p \<mapsto> fl\<lparr>content := content fl @ [c]\<rparr>)"
  using assms by (auto simp: file_write_def split: option.splits if_splits)

lemma file_write_Inl:
  assumes "file_write io_ok p c fs = Inl (e, fs1)" and "fs p = Some fl" and "closes fl < opens fl"
  shows "e = OSError p \<and> fs1 = fs(p \<mapsto> fl\<lparr>content := content fl @ [Partial c]\<rparr>) \<and>
         \<not> io_ok (IoWrite p c) fs"
  using assms by (auto simp: file_write_def split: option.splits if_splits)

lemma file_close_Inr:
  assumes "file_close io_ok p fs = Inr fs1" and "fs p = Some fl" and "closes fl < opens fl"
  shows "fs1 = fs(p \<mapsto> fl\<lparr>closes := closes fl + 1\<rparr>)"
  using assms by (auto simp: file_close_def split: option.splits if_splits)

lemma file_close_Inl:
  assumes "file_close io_ok p fs = Inl (e, fs1)" and "fs p = Some fl"
  shows "\<not> io_ok (IoClose p) fs"
  using assms by (auto simp: file_close_def split: option.splits if_splits)

lemma unclosed_update:
  assumes "unclosed fs" and "opens fl = 1" and "closes fl = 0"
  shows "unclosed (fs(p \<mapsto> fl))"
  using assms by (auto simp: unclosed_def)

lemma unclosedD:
  assumes "unclosed fs" and "fs p = Some fl"
  shows "opens fl = 1" and "closes fl = 0"
  using assms by (auto simp: unclosed_def)

lemma py_open_unclosed:
  assumes "unclosed fs" and "fs p = None" and "py_open io_ok p fs = Inr fs1"
  shows "unclosed fs1"
  unfolding py_open_Inr [OF assms(3)] using assms(1) by (rule unclosed_update) (simp_all add: assms(2))

lemma file_write_unclosed:
  assumes "unclosed fs" and "file_write io_ok p c fs = Inr fs1"
  shows "unclosed fs1"
proof -
  from file_write_Inr [OF assms(2)] obtain fl where fl: "fs p = Some fl"
    and fs1: "fs1 = fs(p \<mapsto> fl\<lparr>content := content fl @ [c]\<rparr>)" by blast
  show ?thesis unfolding fs1 using assms(1)
    by (rule unclosed_update) (simp_all add: unclosedD [OF assms(1) fl])
qed

lemma file_write_fail_unclosed:
  assumes "unclosed fs" and "fs p = Some fl" and "file_write io_ok p c fs = Inl (e, fs1)"
  shows "e = OSError p \<and> unclosed fs1 \<and> \<not> io_ok (IoWrite p c) fs"
proof -
  from unclosedD [OF assms(1,2)] have o: "closes fl < opens fl" by simp
  from file_write_Inl [OF assms(3,2) o]
  have e: "e = OSError p" and fs1: "fs1 = fs(p \<mapsto> fl\<lparr>content := content fl @ [Partial c]\<rparr>)"
    and n: "\<not> io_ok (IoWrite p c) fs" by simp_all
  have "unclosed fs1" unfolding fs1 using assms(1)
    by (rule unclosed_update) (simp_all add: unclosedD [OF assms(1,2)])
  with e n show ?thesis by simp
qed

lemma file_write_ok:
  assumes "fs p = Some fl" and "closes fl < opens fl" and "io_ok (IoWrite p c) fs"
  shows "file_write io_ok p c fs = Inr (fs(p \<mapsto> fl\<lparr>content := content fl @ [c]\<rparr>))"
  using assms by (simp add: file_write_def)

lemma JsonArrayWriter_init_Inr:
  assumes "JsonArrayWriter_init io_ok p fs = Inr (w, fs1)"
  shows "w = \<lparr>handle = p, first = True\<rparr> \<and>
         fs1 = fs(p \<mapsto> \<lparr>content = [Text ''[\<newline>''],
                         opens = (case fs p of None \<Rightarrow> 1 | Some fl \<Rightarrow> opens fl + 1),
                         closes = (case fs p of None \<Rightarrow> 0 | Some fl \<Rightarrow> closes fl)\<rparr>)"
proof -
  from assms obtain fs0 where o: "py_open io_ok p fs = Inr fs0"
    and wr: "file_write io_ok p (Text ''[\<newline>'') fs0 = Inr fs1" and w: "w = \<lparr>handle = p, first = True\<rparr>"
    by (auto simp: JsonArrayWriter_init_def split: sum.splits)
  from file_write_Inr [OF wr] obtain fl where fl: "fs0 p = Some fl"
    and fs1: "fs1 = fs0(p \<mapsto> fl\<lparr>content := content fl @ [Text ''[\<newline>'']\<rparr>)" by blast
  from fl have "fl = \<lparr>content = [],
                         opens = (case fs p of None \<Rightarrow> 1 | Some fl \<Rightarrow> opens fl + 1),
                         closes = (case fs p of None \<Rightarrow> 0 | Some fl \<Rightarrow> closes fl)\<rparr>"
    unfolding py_open_Inr [OF o] by simp
  with fs1 w show ?thesis unfolding py_open_Inr [OF o] by simp
qed

lemma JsonArrayWriter_init_Inl:
  assumes "unclosed fs" and "fs p = None" and "JsonArrayWriter_init io_ok p fs = Inl (e, fs1)"
  shows "e = OSError p \<and> unclosed fs1 \<and>
         ((\<exists>fs'. \<not> io_ok (IoOpen p) fs') \<or> (\<exists>c fs'. \<not> io_ok (IoWrite p c) fs'))"
proof (cases "py_open io_ok p fs")
  case (Inl x)
  with assms(3) have "py_open io_ok p fs = Inl (e, fs1)"
    by (simp add: JsonArrayWriter_init_def)
  from py_open_Inl [OF this] assms(1) show ?thesis by blast
next
  case (Inr fs0)
  with assms(3) have wr: "file_write io_ok p (Text ''[\<newline>'') fs0 = Inl (e, fs1)"
    by (simp add: JsonArrayWriter_init_def split: sum.splits)
  from assms(1,2) Inr have u: "unclosed fs0" by (rule py_open_unclosed)
  have "\<exists>fl. fs0 p = Some fl" unfolding py_open_Inr [OF Inr] by simp
  then obtain fl where "fs0 p = Some fl" ..
  from file_write_fail_unclosed [OF u this wr] show ?thesis by blast
qed

lemma JsonArrayWriter_write_Inr:
  assumes "JsonArrayWriter_write io_ok w r fs = Inr (w1, fs1)"
  shows "\<exists>fl. fs (handle w) = Some fl \<and> w1 = w\<lparr>first := False\<rparr> \<and>
           fs1 = fs(handle w \<mapsto> fl\<lparr>content := content fl @
                    (if first w then [JsonDump r] else [Text '',\<newline>'', JsonDump r])\<rparr>)"
proof (cases "first w")
  case True
  with assms have wr: "file_write io_ok (handle w) (JsonDump r) fs = Inr fs1" and w1: "w1 = w\<lparr>first := False\<rparr>"
    by (auto simp: JsonArrayWriter_write_def split: sum.splits)
  from file_write_Inr [OF wr] True w1 show ?thesis by auto
next
  case False
  with assms obtain fs0 where a: "file_write io_ok (handle w) (Text '',\<newline>'') fs = Inr fs0"
    and b: "file_write io_ok (handle w) (JsonDump r) fs0 = Inr fs1" and w1: "w1 = w"
    by (auto simp: JsonArrayWriter_write_def split: sum.splits prod.splits)
  from file_write_Inr [OF a] obtain fl where fl: "fs (handle w) = Some fl"
    and fs0: "fs0 = fs(handle w \<mapsto> fl\<lparr>content := content fl @ [Text '',\<newline>'']\<rparr>)" by blast
  from file_write_Inr [OF b] fs0 have "fs1 = fs(handle w \<mapsto> fl\<lparr>content := content fl @ [Text '',\<newline>'', JsonDump r]\<rparr>)"
    by auto
  with fl w1 False show ?thesis by simp
qed

lemma JsonArrayWriter_write_Inl:
  assumes "unclosed fs" and "fs (handle w) = Some fl"
    and "JsonArrayWriter_write io_ok w r fs = Inl (e, w1, fs1)"
  shows "e = OSError (handle w) \<and> unclosed fs1 \<and> (\<exists>c fs'. \<not> io_ok (IoWrite (handle w) c) fs')"
proof (cases "first w")
  case True
  with assms(3) have "file_write io_ok (handle w) (JsonDump r) fs = Inl (e, fs1)"
    by (auto simp: JsonArrayWriter_write_def split: sum.splits prod.splits)
  from file_write_fail_unclosed [OF assms(1,2) this] show ?thesis by blast
next
  case False
  show ?thesis
  proof (cases "file_write io_ok (handle w) (Text '',\<newline>'') fs")
    case (Inl x)
    with False assms(3) have "file_write io_ok (handle w) (Text '',\<newline>'') fs = Inl (e, fs1)"
      by (auto simp: JsonArrayWriter_write_def split: sum.splits prod.splits)
    from file_write_fail_unclosed [OF assms(1,2) this] show ?thesis by blast
  next
    case (Inr fs0)
    with False assms(3) have b: "file_write io_ok (handle w) (JsonDump r) fs0 = Inl (e, fs1)"
      by (auto simp: JsonArrayWriter_write_def split: sum.splits prod.splits)
    from assms(1) Inr have u: "unclosed fs0" by (rule file_write_unclosed)
    from file_write_Inr [OF Inr] have "\<exists>fl. fs0 (handle w) = Some fl" by auto
    then obtain fl0 where "fs0 (handle w) = Some fl0" ..
    from file_write_fail_unclosed [OF u this b] show ?thesis by blast
  qed
qed

lemma yaml_write_Inr:
  assumes "yaml_write io_ok fh r fs = Inr fs1"
  shows "\<exists>fl. fs fh = Some fl \<and>
           fs1 = fs(fh \<mapsto> fl\<lparr>content := content fl @ [YamlDump r, Text ''\<newline>'']\<rparr>)"
proof -
  from assms obtain fs0 where a: "file_write io_ok fh (YamlDump r) fs = Inr fs0"
    and b: "file_write io_ok fh (Text ''\<newline>'') fs0 = Inr fs1"
    by (auto simp: yaml_write_def split: sum.splits)
  from file_write_Inr [OF a] obtain fl where fl: "fs fh = Some fl"
    and fs0: "fs0 = fs(fh \<mapsto> fl\<lparr>content := content fl @ [YamlDump r]\<rparr>)" by blast
  from file_write_Inr [OF b] fs0 have "fs1 = fs(fh \<mapsto> fl\<lparr>content := content fl @ [YamlDump r, Text ''\<newline>'']\<rparr>)"
    by auto
  with fl show ?thesis by simp
qed

lemma yaml_write_Inl:
  assumes "unclosed fs" and "fs fh = Some fl" and "yaml_write io_ok fh r fs = Inl (e, fs1)"
  shows "e = OSError fh \<and> unclosed fs1 \<and> (\<exists>c fs'. \<not> io_ok (IoWrite fh c) fs')"
proof (cases "file_write io_ok fh (YamlDump r) fs")
  case (Inl x)
  with assms(3) have "file_write io_ok fh (YamlDump r) fs = Inl (e, fs1)"
    by (simp add: yaml_write_def)
  from file_write_fail_unclosed [OF assms(1,2) this] show ?thesis by blast
next
  case (Inr fs0)
  with assms(3) have b: "file_write io_ok fh (Text ''\<newline>'') fs0 = Inl (e, fs1)"
    by (simp add: yaml_write_def)
  from assms(1) Inr have u: "unclosed fs0" by (rule file_write_unclosed)
  from file_write_Inr [OF Inr] have "\<exists>fl. fs0 fh = Some fl" by auto
  then obtain fl0 where "fs0 fh = Some fl0" ..
  from file_write_fail_unclosed [OF u this b] show ?thesis by blast
qed

lemma json_invD:
  assumes "json_inv od rs st"
  shows "distinct (map fst (json_writers st))" and "fst ` set (json_writers st) = fst ` set rs"
    and "y \<in> fst ` set rs \<Longrightarrow>
           map_of (json_writers st) y = Some \<lparr>handle = json_path od y, first = False\<rparr>"
    and "y \<in> fst ` set rs \<Longrightarrow> files st (json_path od y) =
           Some \<lparr>content = Text ''[\<newline>'' # json_elements (records_for y rs), opens = 1, closes = 0\<rparr>"
  using assms unfolding json_inv_def by blast+

lemma yaml_invD:
  assumes "yaml_inv od rs st"
  shows "distinct (map fst (yaml_files st))" and "fst ` set (yaml_files st) = fst ` set rs"
    and "y \<in> fst ` set rs \<Longrightarrow> map_of (yaml_files st) y = Some (yaml_path od y)"
    and "y \<in> fst ` set rs \<Longrightarrow> files st (yaml_path od y) =
           Some \<lparr>content = yaml_stream (records_for y rs), opens = 1, closes = 0\<rparr>"
  using assms unfolding yaml_inv_def by blast+

lemma json_file_fresh:
  assumes "json_inv od rs st" and "dom_inv od st" and "y \<notin> fst ` set rs"
  shows "files st (json_path od y) = None"
proof (rule ccontr)
  assume "files st (json_path od y) \<noteq> None"
  with assms(2) have "(\<exists>y' \<in> fst ` set (json_writers st). json_path od y = json_path od y') \<or>
      (\<exists>y' \<in> fst ` set (yaml_files st). json_path od y = yaml_path od y')"
    unfolding dom_inv_def by blast
  then have "y \<in> fst ` set (json_writers st)" by auto
  with json_invD(2) [OF assms(1)] assms(3) show False by simp
qed

lemma yaml_file_fresh:
  assumes "yaml_inv od rs st" and "dom_inv od st" and "y \<notin> fst ` set rs"
  shows "files st (yaml_path od y) = None"
proof (rule ccontr)
  assume "files st (yaml_path od y) \<noteq> None"
  with assms(2) have "(\<exists>y' \<in> fst ` set (json_writers st). yaml_path od y = json_path od y') \<or>
      (\<exists>y' \<in> fst ` set (yaml_files st). yaml_path od y = yaml_path od y')"
    unfolding dom_inv_def by blast
  then have "y \<in> fst ` set (yaml_files st)" by auto
  with yaml_invD(2) [OF assms(1)] assms(3) show False by simp
qed

lemma dom_inv_overwrite:
  assumes "dom_inv od st" and "files st p = Some fl"
  shows "dom_inv od (st\<lparr>files := (files st)(p \<mapsto> fl')\<rparr>)"
  unfolding dom_inv_def
proof (intro allI impI)
  fix q
  assume "files (st\<lparr>files := (files st)(p \<mapsto> fl')\<rparr>) q \<noteq> None"
  then have "files st q \<noteq> None" using assms(2) by (cases "q = p") auto
  with assms(1) show "(\<exists>y \<in> fst ` set (json_writers (st\<lparr>files := (files st)(p \<mapsto> fl')\<rparr>)). q = json_path od y) \<or>
      (\<exists>y \<in> fst ` set (yaml_files (st\<lparr>files := (files st)(p \<mapsto> fl')\<rparr>)). q = yaml_path od y)"
    unfolding dom_inv_def by simp
qed

lemma inv_unclosed:
  assumes "json_inv od rsj st" and "yaml_inv od rsy st" and "dom_inv od st"
  shows "unclosed (files st)"
  unfolding unclosed_def
proof (intro allI impI)
  fix p fl
  assume f: "files st p = Some fl"
  then have "files st p \<noteq> None" by simp
  with assms(3) have "(\<exists>y \<in> fst ` set (json_writers st). p = json_path od y) \<or>
      (\<exists>y \<in> fst ` set (yaml_files st). p = yaml_path od y)"
    unfolding dom_inv_def by blast
  then consider y where "y \<in> fst ` set (json_writers st)" "p = json_path od y"
    | y where "y \<in> fst ` set (yaml_files st)" "p = yaml_path od y"
    by blast
  then show "opens fl = 1 \<and> closes fl = 0"
  proof cases
    case 1
    then have "y \<in> fst ` set rsj" using json_invD(2) [OF assms(1)] by simp
    from json_invD(4) [OF assms(1) this] 1(2) f
    have "fl = \<lparr>content = Text ''[\<newline>'' # json_elements (records_for y rsj), opens = 1, closes = 0\<rparr>"
      by simp
    then show ?thesis by simp
  next
    case 2
    then have "y \<in> fst ` set rsy" using yaml_invD(2) [OF assms(2)] by simp
    from yaml_invD(4) [OF assms(2) this] 2(2) f
    have "fl = \<lparr>content = yaml_stream (records_for y rsy), opens = 1, closes = 0\<rparr>"
      by simp
    then show ?thesis by simp
  qed
qed

lemma json_route_new_Inr:
  assumes "map_of (json_writers st) y = None" and "json_route io_ok od y r st = Inr st1"
  shows "st1 = st\<lparr>json_writers :=
              AList.update y \<lparr>handle = json_path od y, first = False\<rparr> (json_writers st),
            files := (files st)(json_path od y \<mapsto>
              \<lparr>content = [Text ''[\<newline>'', JsonDump r],
               opens = (case files st (json_path od y) of None \<Rightarrow> 1 | Some fl \<Rightarrow> opens fl + 1),
               closes = (case files st (json_path od y) of None \<Rightarrow> 0 | Some fl \<Rightarrow> closes fl)\<rparr>)\<rparr>"
proof -
  from assms have "\<exists>w fs1 w1 fs2.
      JsonArrayWriter_init io_ok (json_path od y) (files st) = Inr (w, fs1) \<and>
      JsonArrayWriter_write io_ok w r fs1 = Inr (w1, fs2) \<and>
      st1 = st\<lparr>json_writers := AList.update y w1 (json_writers st), files := fs2\<rparr>"
    by (auto simp: json_route_def update_conv' split: sum.splits prod.splits)
  then obtain w fs1 w1 fs2 where
    i: "JsonArrayWriter_init io_ok (json_path od y) (files st) = Inr (w, fs1)"
    and wr: "JsonArrayWriter_write io_ok w r fs1 = Inr (w1, fs2)"
    and st1: "st1 = st\<lparr>json_writers := AList.update y w1 (json_writers st), files := fs2\<rparr>"
    by blast
  note i' = JsonArrayWriter_init_Inr [OF i]
  from JsonArrayWriter_write_Inr [OF wr] i'
  have "w1 = \<lparr>handle = json_path od y, first = False\<rparr>"
    and "fs2 = (files st)(json_path od y \<mapsto>
              \<lparr>content = [Text ''[\<newline>'', JsonDump r],
               opens = (case files st (json_path od y) of None \<Rightarrow> 1 | Some fl \<Rightarrow> opens fl + 1),
               closes = (case files st (json_path od y) of None \<Rightarrow> 0 | Some fl \<Rightarrow> closes fl)\<rparr>)"
    by auto
  with st1 show ?thesis by simp
qed

lemma json_route_old_Inr:
  assumes "map_of (json_writers st) y = Some \<lparr>handle = p, first = False\<rparr>"
    and "files st p = Some fl" and "json_route io_ok od y r st = Inr st1"
  shows "st1 = st\<lparr>files := (files st)(p \<mapsto> fl\<lparr>content := content fl @ [Text '',\<newline>'', JsonDump r]\<rparr>)\<rparr>"
proof -
  from assms(1,3) have "\<exists>w1 fs1.
      JsonArrayWriter_write io_ok \<lparr>handle = p, first = False\<rparr> r (files st) = Inr (w1, fs1) \<and>
      st1 = st\<lparr>json_writers := AList.update y w1 (json_writers st), files := fs1\<rparr>"
    by (auto simp: json_route_def split: sum.splits prod.splits)
  then obtain w1 fs1 where
    wr: "JsonArrayWriter_write io_ok \<lparr>handle = p, first = False\<rparr> r (files st) = Inr (w1, fs1)"
    and st1: "st1 = st\<lparr>json_writers := AList.update y w1 (json_writers st), files := fs1\<rparr>"
    by blast
  from JsonArrayWriter_write_Inr [OF wr] assms(2)
  have w1: "w1 = \<lparr>handle = p, first = False\<rparr>"
    and fs1: "fs1 = (files st)(p \<mapsto> fl\<lparr>content := content fl @ [Text '',\<newline>'', JsonDump r]\<rparr>)"
    by auto
  from assms(1) have "AList.update y w1 (json_writers st) = json_writers st"
    unfolding w1 by (rule update_triv)
  with st1 fs1 show ?thesis by simp
qed

lemma json_route_Inl:
  assumes J: "json_inv od rs st" and Y: "yaml_inv od rsy st" and D: "dom_inv od st"
    and R: "json_route io_ok od y r st = Inl (e, st2)"
  shows "e = OSError (json_path od y) \<and> unclosed (files st2) \<and>
         ((\<exists>fs'. \<not> io_ok (IoOpen (json_path od y)) fs') \<or>
          (\<exists>c fs'. \<not> io_ok (IoWrite (json_path od y) c) fs'))"
proof -
  from J Y D have U: "unclosed (files st)" by (rule inv_unclosed)
  show ?thesis
  proof (cases "y \<in> fst ` set rs")
    case True
    let ?w = "\<lparr>handle = json_path od y, first = False\<rparr>"
    from True have w: "map_of (json_writers st) y = Some ?w"
      by (rule json_invD(3) [OF J])
    from json_invD(4) [OF J True] have f: "\<exists>fl. files st (handle ?w) = Some fl" by simp
    then obtain fl where f: "files st (handle ?w) = Some fl" ..
    from R w have "\<exists>w1 fs1. JsonArrayWriter_write io_ok ?w r (files st) = Inl (e, w1, fs1) \<and>
        files st2 = fs1"
      by (auto simp: json_route_def split: sum.splits prod.splits)
    then obtain w1 fs1 where wr: "JsonArrayWriter_write io_ok ?w r (files st) = Inl (e, w1, fs1)"
      and st2: "files st2 = fs1" by blast
    from JsonArrayWriter_write_Inl [OF U f wr] st2 show ?thesis by auto
  next
    case False
    with json_invD(2) [OF J] have none: "map_of (json_writers st) y = None"
      by (simp add: map_of_eq_None_iff)
    from J D False have fresh: "files st (json_path od y) = None" by (rule json_file_fresh)
    show ?thesis
    proof (cases "JsonArrayWriter_init io_ok (json_path od y) (files st)")
      case (Inl x)
      with R none have "JsonArrayWriter_init io_ok (json_path od y) (files st) = Inl (e, files st2)"
        by (auto simp: json_route_def split: sum.splits prod.splits)
      from JsonArrayWriter_init_Inl [OF U fresh this] show ?thesis by blast
    next
      case (Inr x)
      obtain w fs1 where x: "x = (w, fs1)" by (cases x)
      note i = JsonArrayWriter_init_Inr [OF Inr [unfolded x]]
      from R none Inr x have "\<exists>w1 fs2. JsonArrayWriter_write io_ok w r fs1 = Inl (e, w1, fs2) \<and>
          files st2 = fs2"
        by (auto simp: json_route_def update_conv' split: sum.splits prod.splits)
      then obtain w1 fs2 where wr: "JsonArrayWriter_write io_ok w r fs1 = Inl (e, w1, fs2)"
        and st2: "files st2 = fs2" by blast
      from i fresh have fs1: "fs1 = (files st)(json_path od y \<mapsto>
          \<lparr>content = [Text ''[\<newline>''], opens = 1, closes = 0\<rparr>)" and h: "handle w = json_path od y"
        by simp_all
      have U1: "unclosed fs1" unfolding fs1 using U by (rule unclosed_update) simp_all
      have f1: "fs1 (handle w) = Some \<lparr>content = [Text ''[\<newline>''], opens = 1, closes = 0\<rparr>"
        by (simp add: fs1 h)
      from JsonArrayWriter_write_Inl [OF U1 f1 wr] st2 h show ?thesis by auto
    qed
  qed
qed

lemma json_route_fail:
  assumes "map_of (json_writers st) y = None" and "\<not> io_ok (IoOpen (json_path od y)) (files st)"
  shows "json_route io_ok od y r st = Inl (OSError (json_path od y), st)"
  using assms by (simp add: json_route_def JsonArrayWriter_init_def py_open_def)

lemma yaml_route_new_Inr:
  assumes "map_of (yaml_files st) y = None" and "yaml_route io_ok od y r st = Inr st1"
  shows "st1 = st\<lparr>yaml_files := AList.update y (yaml_path od y) (yaml_files st),
            files := (files st)(yaml_path od y \<mapsto>
              \<lparr>content = [YamlDump r, Text ''\<newline>''],
               opens = (case files st (yaml_path od y) of None \<Rightarrow> 1 | Some fl \<Rightarrow> opens fl + 1),
               closes = (case files st (yaml_path od y) of None \<Rightarrow> 0 | Some fl \<Rightarrow> closes fl)\<rparr>)\<rparr>"
proof -
  from assms have "\<exists>fs1 fs2.
      py_open io_ok (yaml_path od y) (files st) = Inr fs1 \<and>
      yaml_write io_ok (yaml_path od y) r fs1 = Inr fs2 \<and>
      st1 = st\<lparr>yaml_files := AList.update y (yaml_path od y) (yaml_files st), files := fs2\<rparr>"
    by (auto simp: yaml_route_def update_conv' split: sum.splits prod.splits)
  then obtain fs1 fs2 where
    o: "py_open io_ok (yaml_path od y) (files st) = Inr fs1"
    and wr: "yaml_write io_ok (yaml_path od y) r fs1 = Inr fs2"
    and st1: "st1 = st\<lparr>yaml_files := AList.update y (yaml_path od y) (yaml_files st), files := fs2\<rparr>"
    by blast
  from yaml_write_Inr [OF wr] py_open_Inr [OF o]
  have "fs2 = (files st)(yaml_path od y \<mapsto>
              \<lparr>content = [YamlDump r, Text ''\<newline>''],
               opens = (case files st (yaml_path od y) of None \<Rightarrow> 1 | Some fl \<Rightarrow> opens fl + 1),
               closes = (case files st (yaml_path od y) of None \<Rightarrow> 0 | Some fl \<Rightarrow> closes fl)\<rparr>)"
    by auto
  with st1 show ?thesis by simp
qed

lemma yaml_route_old_Inr:
  assumes "map_of (yaml_files st) y = Some p" and "files st p = Some fl"
    and "yaml_route io_ok od y r st = Inr st1"
  shows "st1 = st\<lparr>files := (files st)(p \<mapsto> fl\<lparr>content := content fl @ [YamlDump r, Text ''\<newline>'']\<rparr>)\<rparr>"
proof -
  from assms(1,3) have "\<exists>fs1. yaml_write io_ok p r (files st) = Inr fs1 \<and> st1 = st\<lparr>files := fs1\<rparr>"
    by (auto simp: yaml_route_def split: sum.splits prod.splits)
  then obtain fs1 where wr: "yaml_write io_ok p r (files st) = Inr fs1" and st1: "st1 = st\<lparr>files := fs1\<rparr>"
    by blast
  from yaml_write_Inr [OF wr] assms(2) st1 show ?thesis by auto
qed

lemma yaml_route_Inl:
  assumes J: "json_inv od rsj st" and Y: "yaml_inv od rs st" and D: "dom_inv od st"
    and R: "yaml_route io_ok od y r st = Inl (e, st2)"
  shows "e = OSError (yaml_path od y) \<and> unclosed (files st2) \<and>
         ((\<exists>fs'. \<not> io_ok (IoOpen (yaml_path od y)) fs') \<or>
          (\<exists>c fs'. \<not> io_ok (IoWrite (yaml_path od y) c) fs'))"
proof -
  from J Y D have U: "unclosed (files st)" by (rule inv_unclosed)
  show ?thesis
  proof (cases "y \<in> fst ` set rs")
    case True
    from True have w: "map_of (yaml_files st) y = Some (yaml_path od y)"
      by (rule yaml_invD(3) [OF Y])
    from yaml_invD(4) [OF Y True] obtain fl where f: "files st (yaml_path od y) = Some fl" by simp
    from R w have "yaml_write io_ok (yaml_path od y) r (files st) = Inl (e, files st2)"
      by (auto simp: yaml_route_def split: sum.splits prod.splits)
    from yaml_write_Inl [OF U f this] show ?thesis by blast
  next
    case False
    with yaml_invD(2) [OF Y] have none: "map_of (yaml_files st) y = None"
      by (simp add: map_of_eq_None_iff)
    from Y D False have fresh: "files st (yaml_path od y) = None" by (rule yaml_file_fresh)
    show ?thesis
    proof (cases "py_open io_ok (yaml_path od y) (files st)")
      case (Inl x)
      with R none have "py_open io_ok (yaml_path od y) (files st) = Inl (e, files st2)"
        by (auto simp: yaml_route_def split: sum.splits prod.splits)
      from py_open_Inl [OF this] U show ?thesis by auto
    next
      case (Inr fs1)
      from R none Inr have wr: "yaml_write io_ok (yaml_path od y) r fs1 = Inl (e, files st2)"
        by (auto simp: yaml_route_def update_conv' split: sum.splits prod.splits)
      from U fresh Inr have U1: "unclosed fs1" by (rule py_open_unclosed)
      have "\<exists>fl. fs1 (yaml_path od y) = Some fl" unfolding py_open_Inr [OF Inr] by simp
      then obtain fl where "fs1 (yaml_path od y) = Some fl" ..
      from yaml_write_Inl [OF U1 this wr] show ?thesis by blast
    qed
  qed
qed

lemma json_route_inv:
  assumes J: "json_inv od rs st" and D: "dom_inv od st"
    and R: "json_route io_ok od y r st = Inr st1"
  shows "json_inv od (rs @ [(y, r)]) st1 \<and> yaml_files st1 = yaml_files st \<and>
         (\<forall>p. p \<noteq> json_path od y \<longrightarrow> files st1 p = files st p) \<and> dom_inv od st1"
proof (cases "y \<in> fst ` set rs")
  case True
  let ?fl = "\<lparr>content = Text ''[\<newline>'' # json_elements (records_for y rs), opens = 1, closes = 0\<rparr>"
  from True have w: "map_of (json_writers st) y = Some \<lparr>handle = json_path od y, first = False\<rparr>"
    and f: "files st (json_path od y) = Some ?fl"
    by (rule json_invD(3) [OF J], rule json_invD(4) [OF J])
  from json_route_old_Inr [OF w f R]
  have st1: "st1 = st\<lparr>files := (files st)(json_path od y \<mapsto>
      ?fl\<lparr>content := content ?fl @ [Text '',\<newline>'', JsonDump r]\<rparr>)\<rparr>" by simp
  from True have ne: "records_for y rs \<noteq> []" by (rule records_for_nonempty)
  from True have keys: "fst ` set (rs @ [(y, r)]) = fst ` set rs" by auto
  have "json_inv od (rs @ [(y, r)]) st1"
    unfolding json_inv_def keys
  proof (intro conjI ballI)
    show "distinct (map fst (json_writers st1))" using json_invD(1) [OF J] by (simp add: st1)
    show "fst ` set (json_writers st1) = fst ` set rs" using json_invD(2) [OF J] by (simp add: st1)
  next
    fix y' assume y': "y' \<in> fst ` set rs"
    with json_invD(3) [OF J]
    show "map_of (json_writers st1) y' = Some \<lparr>handle = json_path od y', first = False\<rparr>"
      by (simp add: st1)
    from json_invD(4) [OF J y'] have "files st (json_path od y') =
        Some \<lparr>content = Text ''[\<newline>'' # json_elements (records_for y' rs), opens = 1, closes = 0\<rparr>"
      by simp
    then show "files st1 (json_path od y') =
        Some \<lparr>content = Text ''[\<newline>'' # json_elements (records_for y' (rs @ [(y, r)])),
              opens = 1, closes = 0\<rparr>"
      using ne by (simp add: st1 records_for_snoc json_elements_snoc)
  qed
  moreover have "dom_inv od st1" unfolding st1 using D f by (rule dom_inv_overwrite)
  ultimately show ?thesis by (simp add: st1)
next
  case False
  with json_invD(2) [OF J] have none: "map_of (json_writers st) y = None"
    by (simp add: map_of_eq_None_iff)
  from J D False have fresh: "files st (json_path od y) = None" by (rule json_file_fresh)
  from json_route_new_Inr [OF none R] fresh
  have st1: "st1 = st\<lparr>json_writers :=
              AList.update y \<lparr>handle = json_path od y, first = False\<rparr> (json_writers st),
            files := (files st)(json_path od y \<mapsto>
              \<lparr>content = [Text ''[\<newline>'', JsonDump r], opens = 1, closes = 0\<rparr>)\<rparr>" by simp
  from False have emp: "records_for y rs = []" by (rule records_for_empty)
  have keys: "fst ` set (rs @ [(y, r)]) = insert y (fst ` set rs)" by auto
  have "json_inv od (rs @ [(y, r)]) st1"
    unfolding json_inv_def keys
  proof (intro conjI ballI)
    show "distinct (map fst (json_writers st1))"
      using json_invD(1) [OF J] by (simp add: st1 distinct_update)
    show "fst ` set (json_writers st1) = insert y (fst ` set rs)"
      using json_invD(2) [OF J] by (simp add: st1 dom_update)
  next
    fix y' assume y': "y' \<in> insert y (fst ` set rs)"
    show "map_of (json_writers st1) y' = Some \<lparr>handle = json_path od y', first = False\<rparr>"
      using json_invD(3) [OF J, of y'] y' by (auto simp: st1 update_conv')
    show "files st1 (json_path od y') =
        Some \<lparr>content = Text ''[\<newline>'' # json_elements (records_for y' (rs @ [(y, r)])),
              opens = 1, closes = 0\<rparr>"
    proof (cases "y' = y")
      case True
      then show ?thesis by (simp add: st1 records_for_snoc emp)
    next
      case ne: False
      with y' have "y' \<in> fst ` set rs" by simp
      with json_invD(4) [OF J, of y'] have "files st (json_path od y') =
        Some \<lparr>content = Text ''[\<newline>'' # json_elements (records_for y' rs), opens = 1, closes = 0\<rparr>"
        by simp
      with ne show ?thesis by (simp add: st1 records_for_snoc)
    qed
  qed
  moreover have "dom_inv od st1"
    using D by (auto simp: st1 dom_inv_def dom_update split: if_splits)
  ultimately show ?thesis by (simp add: st1)
qed

lemma yaml_route_inv:
  assumes Y: "yaml_inv od rs st" and D: "dom_inv od st"
    and R: "yaml_route io_ok od y r st = Inr st1"
  shows "yaml_inv od (rs @ [(y, r)]) st1 \<and> json_writers st1 = json_writers st \<and>
         (\<forall>p. p \<noteq> yaml_path od y \<longrightarrow> files st1 p = files st p) \<and> dom_inv od st1"
proof (cases "y \<in> fst ` set rs")
  case True
  let ?fl = "\<lparr>content = yaml_stream (records_for y rs), opens = 1, closes = 0\<rparr>"
  from True have w: "map_of (yaml_files st) y = Some (yaml_path od y)"
    and f: "files st (yaml_path od y) = Some ?fl"
    by (rule yaml_invD(3) [OF Y], rule yaml_invD(4) [OF Y])
  from yaml_route_old_Inr [OF w f R]
  have st1: "st1 = st\<lparr>files := (files st)(yaml_path od y \<mapsto>
      ?fl\<lparr>content := content ?fl @ [YamlDump r, Text ''\<newline>'']\<rparr>)\<rparr>" by simp
  from True have keys: "fst ` set (rs @ [(y, r)]) = fst ` set rs" by auto
  have "yaml_inv od (rs @ [(y, r)]) st1"
    unfolding yaml_inv_def keys
  proof (intro conjI ballI)
    show "distinct (map fst (yaml_files st1))" using yaml_invD(1) [OF Y] by (simp add: st1)
    show "fst ` set (yaml_files st1) = fst ` set rs" using yaml_invD(2) [OF Y] by (simp add: st1)
  next
    fix y' assume y': "y' \<in> fst ` set rs"
    with yaml_invD(3) [OF Y] show "map_of (yaml_files st1) y' = Some (yaml_path od y')"
      by (simp add: st1)
    from yaml_invD(4) [OF Y y'] have "files st (yaml_path od y') =
        Some \<lparr>content = yaml_stream (records_for y' rs), opens = 1, closes = 0\<rparr>"
      by simp
    then show "files st1 (yaml_path od y') =
        Some \<lparr>content = yaml_stream (records_for y' (rs @ [(y, r)])), opens = 1, closes = 0\<rparr>"
      by (simp add: st1 records_for_snoc yaml_stream_snoc)
  qed
  moreover have "dom_inv od st1" unfolding st1 using D f by (rule dom_inv_overwrite)
  ultimately show ?thesis by (simp add: st1)
next
  case False
  with yaml_invD(2) [OF Y] have none: "map_of (yaml_files st) y = None"
    by (simp add: map_of_eq_None_iff)
  from Y D False have fresh: "files st (yaml_path od y) = None" by (rule yaml_file_fresh)
  from yaml_route_new_Inr [OF none R] fresh
  have st1: "st1 = st\<lparr>yaml_files := AList.update y (yaml_path od y) (yaml_files st),
            files := (files st)(yaml_path od y \<mapsto>
              \<lparr>content = [YamlDump r, Text ''\<newline>''], opens = 1, closes = 0\<rparr>)\<rparr>" by simp
  from False have emp: "records_for y rs = []" by (rule records_for_empty)
  have keys: "fst ` set (rs @ [(y, r)]) = insert y (fst ` set rs)" by auto
  have "yaml_inv od (rs @ [(y, r)]) st1"
    unfolding yaml_inv_def keys
  proof (intro conjI ballI)
    show "distinct (map fst (yaml_files st1))"
      using yaml_invD(1) [OF Y] by (simp add: st1 distinct_update)
    show "fst ` set (yaml_files st1) = insert y (fst ` set rs)"
      using yaml_invD(2) [OF Y] by (simp add: st1 dom_update)
  next
    fix y' assume y': "y' \<in> insert y (fst ` set rs)"
    show "map_of (yaml_files st1) y' = Some (yaml_path od y')"
      using yaml_invD(3) [OF Y, of y'] y' by (auto simp: st1 update_conv')
    show "files st1 (yaml_path od y') =
        Some \<lparr>content = yaml_stream (records_for y' (rs @ [(y, r)])), opens = 1, closes = 0\<rparr>"
    proof (cases "y' = y")
      case True
      then show ?thesis by (simp add: st1 records_for_snoc emp yaml_stream_def)
    next
      case ne: False
      with y' have "y' \<in> fst ` set rs" by simp
      with yaml_invD(4) [OF Y, of y'] have "files st (yaml_path od y') =
        Some \<lparr>content = yaml_stream (records_for y' rs), opens = 1, closes = 0\<rparr>"
        by simp
      with ne show ?thesis by (simp add: st1 records_for_snoc)
    qed
  qed
  moreover have "dom_inv od st1"
    using D by (auto simp: st1 dom_inv_def dom_update split: if_splits)
  ultimately show ?thesis by (simp add: st1)
qed

lemma json_inv_frame:
  assumes "json_inv od rs st" and "json_writers st1 = json_writers st"
    and "\<forall>p. p \<noteq> yaml_path od y \<longrightarrow> files st1 p = files st p"
  shows "json_inv od rs st1"
  unfolding json_inv_def
proof (intro conjI ballI)
  show "distinct (map fst (json_writers st1))" using json_invD(1) [OF assms(1)] assms(2) by simp
  show "fst ` set (json_writers st1) = fst ` set rs" using json_invD(2) [OF assms(1)] assms(2) by simp
next
  fix y' assume y': "y' \<in> fst ` set rs"
  show "map_of (json_writers st1) y' = Some \<lparr>handle = json_path od y', first = False\<rparr>"
    using json_invD(3) [OF assms(1) y'] assms(2) by simp
  show "files st1 (json_path od y') =
      Some \<lparr>content = Text ''[\<newline>'' # json_elements (records_for y' rs), opens = 1, closes = 0\<rparr>"
    using json_invD(4) [OF assms(1) y'] assms(3) by simp
qed

lemma yaml_inv_frame:
  assumes "yaml_inv od rs st" and "yaml_files st1 = yaml_files st"
    and "\<forall>p. p \<noteq> json_path od y \<longrightarrow> files st1 p = files st p"
  shows "yaml_inv od rs st1"
  unfolding yaml_inv_def
proof (intro conjI ballI)
  show "distinct (map fst (yaml_files st1))" using yaml_invD(1) [OF assms(1)] assms(2) by simp
  show "fst ` set (yaml_files st1) = fst ` set rs" using yaml_invD(2) [OF assms(1)] assms(2) by simp
next
  fix y' assume y': "y' \<in> fst ` set rs"
  show "map_of (yaml_files st1) y' = Some (yaml_path od y')"
    using yaml_invD(3) [OF assms(1) y'] assms(2) by simp
  show "files st1 (yaml_path od y') =
      Some \<lparr>content = yaml_stream (records_for y' rs), opens = 1, closes = 0\<rparr>"
    using yaml_invD(4) [OF assms(1) y'] assms(3) by simp
qed

lemma route_inv:
  assumes J: "json_inv od rs st" and Y: "yaml_inv od rs st" and D: "dom_inv od st"
    and R: "route io_ok od y r st = Inr st2"
  shows "json_inv od (rs @ [(y, r)]) st2 \<and> yaml_inv od (rs @ [(y, r)]) st2 \<and> dom_inv od st2"
proof -
  from R obtain st1 where R1: "json_route io_ok od y r st = Inr st1"
    and R2: "yaml_route io_ok od y r st1 = Inr st2"
    by (auto simp: route_def split: sum.splits)
  from json_route_inv [OF J D R1]
  have J1: "json_inv od (rs @ [(y, r)]) st1" and yf: "yaml_files st1 = yaml_files st"
    and fr: "\<forall>p. p \<noteq> json_path od y \<longrightarrow> files st1 p = files st p" and D1: "dom_inv od st1"
    by blast+
  from Y yf fr have Y1: "yaml_inv od rs st1" by (rule yaml_inv_frame)
  from yaml_route_inv [OF Y1 D1 R2]
  have Y2: "yaml_inv od (rs @ [(y, r)]) st2" and jw: "json_writers st2 = json_writers st1"
    and fr2: "\<forall>p. p \<noteq> yaml_path od y \<longrightarrow> files st2 p = files st1 p" and D2: "dom_inv od st2"
    by blast+
  from J1 jw fr2 have "json_inv od (rs @ [(y, r)]) st2" by (rule json_inv_frame)
  with Y2 D2 show ?thesis by blast
qed

text \<open>
  A record that cannot be routed: the exception is the \<^verbatim>\<open>OSError\<close> of one of the two
  paths of its key, which the environment has refused to open or to write, and the files
  are left as they are, none of them closed.
\<close>

lemma route_Inl:
  assumes J: "json_inv od rs st" and Y: "yaml_inv od rs st" and D: "dom_inv od st"
    and R: "route io_ok od y r st = Inl (e, st2)"
  shows "(e = OSError (json_path od y) \<or> e = OSError (yaml_path od y)) \<and> unclosed (files st2) \<and>
         (\<exists>p \<in> {json_path od y, yaml_path od y}.
            (\<exists>fs'. \<not> io_ok (IoOpen p) fs') \<or> (\<exists>c fs'. \<not> io_ok (IoWrite p c) fs'))"
proof (cases "json_route io_ok od y r st")
  case (Inl x)
  with R have "json_route io_ok od y r st = Inl (e, st2)" by (simp add: route_def)
  from json_route_Inl [OF J Y D this] show ?thesis by blast
next
  case (Inr st1)
  with R have R2: "yaml_route io_ok od y r st1 = Inl (e, st2)" by (simp add: route_def)
  from json_route_inv [OF J D Inr]
  have J1: "json_inv od (rs @ [(y, r)]) st1" and yf: "yaml_files st1 = yaml_files st"
    and fr: "\<forall>p. p \<noteq> json_path od y \<longrightarrow> files st1 p = files st p" and D1: "dom_inv od st1"
    by blast+
  from Y yf fr have Y1: "yaml_inv od rs st1" by (rule yaml_inv_frame)
  from yaml_route_Inl [OF J1 Y1 D1 R2] show ?thesis by blast
qed

lemma routed_Nil [simp]: "routed sd m rt [] = []"
  by (simp add: routed_def)

lemma routed_Cons:
  "routed sd m rt (e # es) =
     (if tag e = rt
      then (year_str sd m (person_elem_to_dict e m), person_elem_to_dict e m) # routed sd m rt es
      else routed sd m rt es)"
  by (simp add: routed_def)

lemma routed_append: "routed sd m rt (xs @ ys) = routed sd m rt xs @ routed sd m rt ys"
  by (simp add: routed_def)

lemma process_elem_inv:
  assumes "json_inv od rs st" and "yaml_inv od rs st" and "dom_inv od st"
    and "process_elem sd io_ok m od rt e st = Inr st1"
  shows "json_inv od (rs @ routed sd m rt [e]) st1 \<and> yaml_inv od (rs @ routed sd m rt [e]) st1 \<and>
         dom_inv od st1"
proof (cases "tag e = rt")
  case False
  with assms show ?thesis by (simp add: process_elem_def routed_Cons)
next
  case True
  with assms(4) have "route io_ok od (year_str sd m (person_elem_to_dict e m))
      (person_elem_to_dict e m) st = Inr st1"
    by (simp add: process_elem_def Let_def)
  from route_inv [OF assms(1-3) this] True show ?thesis by (simp add: routed_Cons)
qed

lemma process_elem_Inl:
  assumes "json_inv od rs st" and "yaml_inv od rs st" and "dom_inv od st"
    and "process_elem sd io_ok m od rt e st = Inl (err, st2)"
  shows "tag e = rt \<and>
         (err = OSError (json_path od (year_str sd m (person_elem_to_dict e m))) \<or>
          err = OSError (yaml_path od (year_str sd m (person_elem_to_dict e m)))) \<and>
         unclosed (files st2) \<and>
         (\<exists>p \<in> {json_path od (year_str sd m (person_elem_to_dict e m)),
                 yaml_path od (year_str sd m (person_elem_to_dict e m))}.
            (\<exists>fs'. \<not> io_ok (IoOpen p) fs') \<or> (\<exists>c fs'. \<not> io_ok (IoWrite p c) fs'))"
proof (cases "tag e = rt")
  case False
  with assms(4) show ?thesis by (simp add: process_elem_def)
next
  case True
  with assms(4) have "route io_ok od (year_str sd m (person_elem_to_dict e m))
      (person_elem_to_dict e m) st = Inl (err, st2)"
    by (simp add: process_elem_def Let_def)
  from route_Inl [OF assms(1-3) this] True show ?thesis by blast
qed

lemma main_loop_inv:
  assumes "json_inv od rs st" and "yaml_inv od rs st" and "dom_inv od st"
    and "main_loop sd io_ok m od rt elems raised st = Inr st1"
  shows "json_inv od (rs @ routed sd m rt elems) st1 \<and>
         yaml_inv od (rs @ routed sd m rt elems) st1 \<and> dom_inv od st1 \<and> raised = None"
  using assms
proof (induction elems arbitrary: rs st)
  case Nil
  then show ?case by (simp split: option.splits)
next
  case (Cons e es)
  from Cons.prems(4) obtain st' where P: "process_elem sd io_ok m od rt e st = Inr st'"
    and L: "main_loop sd io_ok m od rt es raised st' = Inr st1"
    by (auto split: sum.splits)
  from process_elem_inv [OF Cons.prems(1-3) P]
  have "json_inv od (rs @ routed sd m rt [e]) st'" "yaml_inv od (rs @ routed sd m rt [e]) st'"
    "dom_inv od st'" by blast+
  from Cons.IH [OF this L] have "json_inv od ((rs @ routed sd m rt [e]) @ routed sd m rt es) st1 \<and>
      yaml_inv od ((rs @ routed sd m rt [e]) @ routed sd m rt es) st1 \<and> dom_inv od st1 \<and> raised = None" .
  moreover have "(rs @ routed sd m rt [e]) @ routed sd m rt es = rs @ routed sd m rt (e # es)"
    by (simp add: routed_Cons)
  ultimately show ?case by simp
qed

text \<open>
  A loop that an exception leaves: the exception is the one the reader raised, or the
  \<^verbatim>\<open>OSError\<close> of a record that could not be routed, and no file has been closed.
\<close>

lemma main_loop_Inl:
  assumes "json_inv od rs st" and "yaml_inv od rs st" and "dom_inv od st"
    and "main_loop sd io_ok m od rt elems raised st = Inl (err, st2)"
  shows "unclosed (files st2) \<and> (raised = Some err \<or> (\<exists>p. err = OSError p))"
  using assms
proof (induction elems arbitrary: rs st)
  case Nil
  from Nil.prems(4) have "raised = Some err" and "st2 = st" by (simp_all split: option.splits)
  with inv_unclosed [OF Nil.prems(1-3)] show ?case by simp
next
  case (Cons e es)
  show ?case
  proof (cases "process_elem sd io_ok m od rt e st")
    case (Inl x)
    with Cons.prems(4) have "process_elem sd io_ok m od rt e st = Inl (err, st2)" by simp
    from process_elem_Inl [OF Cons.prems(1-3) this] show ?thesis by blast
  next
    case (Inr st')
    with Cons.prems(4) have L: "main_loop sd io_ok m od rt es raised st' = Inl (err, st2)" by simp
    from process_elem_inv [OF Cons.prems(1-3) Inr]
    have "json_inv od (rs @ routed sd m rt [e]) st'" "yaml_inv od (rs @ routed sd m rt [e]) st'"
      "dom_inv od st'" by blast+
    from Cons.IH [OF this L] show ?thesis .
  qed
qed

lemma main_loop_append:
  "main_loop sd io_ok m od rt (xs @ ys) raised st =
     (case main_loop sd io_ok m od rt xs None st of
        Inl x \<Rightarrow> Inl x
      | Inr st1 \<Rightarrow> main_loop sd io_ok m od rt ys raised st1)"
proof (induction xs arbitrary: st)
  case Nil
  show ?case by simp
next
  case (Cons e es)
  show ?case
  proof (cases "process_elem sd io_ok m od rt e st")
    case (Inl x)
    then show ?thesis by simp
  next
    case (Inr st')
    then show ?thesis by (simp add: Cons.IH)
  qed
qed

lemma main_loop_raised:
  assumes "main_loop sd io_ok m od rt elems None st = Inr st1"
  shows "main_loop sd io_ok m od rt elems (Some e) st = Inl (e, st1)"
proof -
  have "main_loop sd io_ok m od rt (elems @ []) (Some e) st = Inl (e, st1)"
    unfolding main_loop_append [of sd io_ok m od rt elems "[]"] using assms by simp
  then show ?thesis by simp
qed

lemma initial_inv:
  "json_inv od [] initial_state" "yaml_inv od [] initial_state" "dom_inv od initial_state"
  by (simp_all add: json_inv_def yaml_inv_def dom_inv_def initial_state_def)

lemma loop_state_inv:
  assumes "main_loop sd io_ok m od rt elems raised initial_state = Inr st"
  shows "json_inv od (routed sd m rt elems) st" and "yaml_inv od (routed sd m rt elems) st"
    and "dom_inv od st" and "raised = None"
  using main_loop_inv [OF initial_inv assms] by simp_all

lemma json_inv_handles:
  assumes "json_inv od rs st"
  shows "map (\<lambda>yw. handle (snd yw)) (json_writers st) = map (json_path od) (map fst (json_writers st))"
proof -
  have "handle (snd yw) = json_path od (fst yw)" if "yw \<in> set (json_writers st)" for yw
  proof -
    from that have k: "fst yw \<in> fst ` set rs" using json_invD(2) [OF assms] by force
    from that json_invD(1) [OF assms] have "map_of (json_writers st) (fst yw) = Some (snd yw)"
      by simp
    with json_invD(3) [OF assms k] show ?thesis by simp
  qed
  then show ?thesis by simp
qed

lemma yaml_inv_handles:
  assumes "yaml_inv od rs st"
  shows "map snd (yaml_files st) = map (yaml_path od) (map fst (yaml_files st))"
proof -
  have "snd yh = yaml_path od (fst yh)" if "yh \<in> set (yaml_files st)" for yh
  proof -
    from that have k: "fst yh \<in> fst ` set rs" using yaml_invD(2) [OF assms] by force
    from that yaml_invD(1) [OF assms] have "map_of (yaml_files st) (fst yh) = Some (snd yh)"
      by simp
    with yaml_invD(3) [OF assms k] show ?thesis by simp
  qed
  then show ?thesis by simp
qed

lemma JsonArrayWriter_close_Inr:
  assumes "JsonArrayWriter_close io_ok w fs = Inr fs1"
  shows "\<exists>fl. fs (handle w) = Some fl \<and>
           fs1 = fs(handle w \<mapsto> fl\<lparr>content := content fl @ [Text ''\<newline>]\<newline>''], closes := closes fl + 1\<rparr>)"
proof -
  from assms obtain fs0 where a: "file_write io_ok (handle w) (Text ''\<newline>]\<newline>'') fs = Inr fs0"
    and b: "file_close io_ok (handle w) fs0 = Inr fs1"
    by (auto simp: JsonArrayWriter_close_def split: sum.splits)
  from file_write_Inr [OF a] obtain fl where fl: "fs (handle w) = Some fl" and o: "closes fl < opens fl"
    and fs0: "fs0 = fs(handle w \<mapsto> fl\<lparr>content := content fl @ [Text ''\<newline>]\<newline>'']\<rparr>)" by blast
  have f0: "fs0 (handle w) = Some (fl\<lparr>content := content fl @ [Text ''\<newline>]\<newline>'']\<rparr>)"
    by (simp add: fs0)
  from o have o': "closes (fl\<lparr>content := content fl @ [Text ''\<newline>]\<newline>'']\<rparr>) <
      opens (fl\<lparr>content := content fl @ [Text ''\<newline>]\<newline>'']\<rparr>)" by simp
  have "fs1 = fs(handle w \<mapsto> fl\<lparr>content := content fl @ [Text ''\<newline>]\<newline>''], closes := closes fl + 1\<rparr>)"
    unfolding file_close_Inr [OF b f0 o'] unfolding fs0 by simp
  with fl show ?thesis by blast
qed

lemma file_close_apply:
  assumes "file_close io_ok h fs = Inr fs1"
  shows "fs1 p =
     (if p = h
      then map_option (\<lambda>fl. if opens fl \<le> closes fl then fl else fl\<lparr>closes := closes fl + 1\<rparr>) (fs p)
      else fs p)"
  using assms by (auto simp: file_close_def split: option.splits if_splits)

lemma close_json_loop_Inr:
  assumes "distinct (map (\<lambda>yw. handle (snd yw)) ws)" and "close_json_loop io_ok ws fs = Inr fs'"
  shows "fs' p =
       (if p \<in> (\<lambda>yw. handle (snd yw)) ` set ws
        then map_option (\<lambda>fl. fl\<lparr>content := content fl @ [Text ''\<newline>]\<newline>''], closes := closes fl + 1\<rparr>) (fs p)
        else fs p)"
  using assms
proof (induction ws arbitrary: fs)
  case Nil
  then show ?case by simp
next
  case (Cons a ws)
  obtain y w where a: "a = (y, w)" by (cases a)
  from Cons.prems(1) have d: "distinct (map (\<lambda>yw. handle (snd yw)) ws)"
    and n: "handle w \<notin> (\<lambda>yw. handle (snd yw)) ` set ws"
    by (simp_all add: a)
  from Cons.prems(2) obtain fs1 where c: "JsonArrayWriter_close io_ok w fs = Inr fs1"
    and l: "close_json_loop io_ok ws fs1 = Inr fs'"
    by (auto simp: a split: sum.splits)
  from JsonArrayWriter_close_Inr [OF c] obtain fl where fl: "fs (handle w) = Some fl"
    and fs1: "fs1 = fs(handle w \<mapsto> fl\<lparr>content := content fl @ [Text ''\<newline>]\<newline>''], closes := closes fl + 1\<rparr>)"
    by blast
  have "fs' p =
      (if p \<in> (\<lambda>yw. handle (snd yw)) ` set ws
       then map_option (\<lambda>fl. fl\<lparr>content := content fl @ [Text ''\<newline>]\<newline>''], closes := closes fl + 1\<rparr>) (fs1 p)
       else fs1 p)"
    using d l by (rule Cons.IH)
  also have "\<dots> =
      (if p \<in> (\<lambda>yw. handle (snd yw)) ` set (a # ws)
       then map_option (\<lambda>fl. fl\<lparr>content := content fl @ [Text ''\<newline>]\<newline>''], closes := closes fl + 1\<rparr>) (fs p)
       else fs p)"
    using n fl by (auto simp: a fs1)
  finally show ?case .
qed

lemma close_yaml_loop_Inr:
  assumes "distinct (map snd fhs)" and "close_yaml_loop io_ok fhs fs = Inr fs'"
  shows "fs' p =
       (if p \<in> snd ` set fhs
        then map_option (\<lambda>fl. if opens fl \<le> closes fl then fl else fl\<lparr>closes := closes fl + 1\<rparr>) (fs p)
        else fs p)"
  using assms
proof (induction fhs arbitrary: fs)
  case Nil
  then show ?case by simp
next
  case (Cons a fhs)
  obtain y h where a: "a = (y, h)" by (cases a)
  from Cons.prems(1) have d: "distinct (map snd fhs)" and n: "h \<notin> snd ` set fhs"
    by (simp_all add: a)
  from Cons.prems(2) obtain fs1 where c: "file_close io_ok h fs = Inr fs1"
    and l: "close_yaml_loop io_ok fhs fs1 = Inr fs'"
    by (auto simp: a split: sum.splits)
  have "fs' p =
      (if p \<in> snd ` set fhs
       then map_option (\<lambda>fl. if opens fl \<le> closes fl then fl else fl\<lparr>closes := closes fl + 1\<rparr>) (fs1 p)
       else fs1 p)"
    using d l by (rule Cons.IH)
  also have "\<dots> =
      (if p \<in> snd ` set (a # fhs)
       then map_option (\<lambda>fl. if opens fl \<le> closes fl then fl else fl\<lparr>closes := closes fl + 1\<rparr>) (fs p)
       else fs p)"
    using n by (auto simp: a file_close_apply [OF c])
  finally show ?case .
qed

lemma inv_handle_sets:
  assumes J: "json_inv od rs st" and Y: "yaml_inv od rs st"
  shows "distinct (map (\<lambda>yw. handle (snd yw)) (json_writers st))"
    and "distinct (map snd (yaml_files st))"
    and "(\<lambda>yw. handle (snd yw)) ` set (json_writers st) = json_path od ` fst ` set rs"
    and "snd ` set (yaml_files st) = yaml_path od ` fst ` set rs"
proof -
  show "distinct (map (\<lambda>yw. handle (snd yw)) (json_writers st))"
    unfolding json_inv_handles [OF J] using json_invD(1) [OF J]
    by (simp add: distinct_map inj_on_def)
  show "distinct (map snd (yaml_files st))"
    unfolding yaml_inv_handles [OF Y] using yaml_invD(1) [OF Y]
    by (simp add: distinct_map inj_on_def)
  have "(\<lambda>yw. handle (snd yw)) ` set (json_writers st) =
      set (map (\<lambda>yw. handle (snd yw)) (json_writers st))" by simp
  also have "\<dots> = set (map (json_path od) (map fst (json_writers st)))"
    by (simp only: json_inv_handles [OF J])
  also have "\<dots> = json_path od ` (fst ` set (json_writers st))" by (simp only: set_map)
  also have "\<dots> = json_path od ` fst ` set rs" by (simp only: json_invD(2) [OF J])
  finally show "(\<lambda>yw. handle (snd yw)) ` set (json_writers st) = json_path od ` fst ` set rs" .
  have "snd ` set (yaml_files st) = set (map snd (yaml_files st))" by simp
  also have "\<dots> = set (map (yaml_path od) (map fst (yaml_files st)))"
    by (simp only: yaml_inv_handles [OF Y])
  also have "\<dots> = yaml_path od ` (fst ` set (yaml_files st))" by (simp only: set_map)
  also have "\<dots> = yaml_path od ` fst ` set rs" by (simp only: yaml_invD(2) [OF Y])
  finally show "snd ` set (yaml_files st) = yaml_path od ` fst ` set rs" .
qed

lemma close_writers_Inr:
  assumes J: "json_inv od rs st" and Y: "yaml_inv od rs st"
    and C: "close_writers io_ok st = Inr st'"
  shows "json_writers st' = json_writers st" and "yaml_files st' = yaml_files st"
    and "files st' p =
     (if p \<in> json_path od ` fst ` set rs
      then map_option (\<lambda>fl. fl\<lparr>content := content fl @ [Text ''\<newline>]\<newline>''], closes := closes fl + 1\<rparr>)
             (files st p)
      else if p \<in> yaml_path od ` fst ` set rs
      then map_option (\<lambda>fl. if opens fl \<le> closes fl then fl else fl\<lparr>closes := closes fl + 1\<rparr>)
             (files st p)
      else files st p)"
proof -
  note h = inv_handle_sets [OF J Y]
  from C obtain fs1 fs2 where c1: "close_json_loop io_ok (json_writers st) (files st) = Inr fs1"
    and c2: "close_yaml_loop io_ok (yaml_files st) fs1 = Inr fs2" and st': "st' = st\<lparr>files := fs2\<rparr>"
    by (auto simp: close_writers_def split: sum.splits prod.splits)
  from st' show "json_writers st' = json_writers st" "yaml_files st' = yaml_files st" by simp_all
  have ne: "p \<in> json_path od ` fst ` set rs \<Longrightarrow> p \<notin> yaml_path od ` fst ` set rs"
    by auto
  show "files st' p =
     (if p \<in> json_path od ` fst ` set rs
      then map_option (\<lambda>fl. fl\<lparr>content := content fl @ [Text ''\<newline>]\<newline>''], closes := closes fl + 1\<rparr>)
             (files st p)
      else if p \<in> yaml_path od ` fst ` set rs
      then map_option (\<lambda>fl. if opens fl \<le> closes fl then fl else fl\<lparr>closes := closes fl + 1\<rparr>)
             (files st p)
      else files st p)"
    using ne
    by (simp add: st' close_yaml_loop_Inr [OF h(2) c2] close_json_loop_Inr [OF h(1) c1] h(3) h(4))
qed

lemma closed_files:
  assumes J: "json_inv od rs st" and Y: "yaml_inv od rs st"
    and C: "close_writers io_ok st = Inr st'" and y: "y \<in> fst ` set rs"
  shows "files st' (json_path od y) =
           Some \<lparr>content = json_array (records_for y rs), opens = 1, closes = 1\<rparr>"
    and "files st' (yaml_path od y) =
           Some \<lparr>content = yaml_stream (records_for y rs), opens = 1, closes = 1\<rparr>"
proof -
  from y have 1: "json_path od y \<in> json_path od ` fst ` set rs" by blast
  from y have 2: "yaml_path od y \<in> yaml_path od ` fst ` set rs" by blast
  have 3: "yaml_path od y \<notin> json_path od ` fst ` set rs" by auto
  show "files st' (json_path od y) =
           Some \<lparr>content = json_array (records_for y rs), opens = 1, closes = 1\<rparr>"
    using 1 json_invD(4) [OF J y] by (simp add: close_writers_Inr(3) [OF J Y C] json_array_def)
  show "files st' (yaml_path od y) =
           Some \<lparr>content = yaml_stream (records_for y rs), opens = 1, closes = 1\<rparr>"
    using 2 3 yaml_invD(4) [OF Y y] by (simp add: close_writers_Inr(3) [OF J Y C])
qed

lemma closed_dom:
  assumes J: "json_inv od rs st" and Y: "yaml_inv od rs st"
    and C: "close_writers io_ok st = Inr st'"
  shows "files st' p = None \<longleftrightarrow> files st p = None"
  by (simp add: close_writers_Inr(3) [OF J Y C])

lemma closed_once:
  assumes J: "json_inv od rs st" and Y: "yaml_inv od rs st" and D: "dom_inv od st"
    and C: "close_writers io_ok st = Inr st'" and f: "files st' p = Some fl"
  shows "opens fl = 1 \<and> closes fl = 1 \<and>
         (\<exists>y \<in> fst ` set rs. p = json_path od y \<or> p = yaml_path od y)"
proof -
  from f have "files st p \<noteq> None" using closed_dom [OF J Y C, of p] by simp
  with D have "(\<exists>y \<in> fst ` set (json_writers st). p = json_path od y) \<or>
      (\<exists>y \<in> fst ` set (yaml_files st). p = yaml_path od y)"
    unfolding dom_inv_def by blast
  then consider y where "y \<in> fst ` set rs" "p = json_path od y"
    | y where "y \<in> fst ` set rs" "p = yaml_path od y"
    using json_invD(2) [OF J] yaml_invD(2) [OF Y] by auto
  then show ?thesis
  proof cases
    case 1
    with closed_files(1) [OF J Y C 1(1)] f
    have "fl = \<lparr>content = json_array (records_for y rs), opens = 1, closes = 1\<rparr>" by simp
    with 1 show ?thesis by auto
  next
    case 2
    with closed_files(2) [OF J Y C 2(1)] f
    have "fl = \<lparr>content = yaml_stream (records_for y rs), opens = 1, closes = 1\<rparr>" by simp
    with 2 show ?thesis by auto
  qed
qed

text \<open>
  When the environment refuses nothing on the two paths of every key, the loop gets through
  its elements; when it refuses nothing at all, the closing loops get through the writers.
\<close>

lemma process_elem_progress:
  assumes "json_inv od rs st" and "yaml_inv od rs st" and "dom_inv od st"
    and "\<forall>y \<in> fst ` set (routed sd m rt [e]). \<forall>p \<in> {json_path od y, yaml_path od y}.
           (\<forall>fs. io_ok (IoOpen p) fs) \<and> (\<forall>c fs. io_ok (IoWrite p c) fs)"
  shows "\<exists>st'. process_elem sd io_ok m od rt e st = Inr st'"
proof (cases "process_elem sd io_ok m od rt e st")
  case (Inl x)
  obtain err st2 where "x = (err, st2)" by (cases x)
  with Inl have P: "process_elem sd io_ok m od rt e st = Inl (err, st2)" by simp
  from process_elem_Inl [OF assms(1-3) P]
  have t: "tag e = rt"
    and r: "\<exists>p \<in> {json_path od (year_str sd m (person_elem_to_dict e m)),
                 yaml_path od (year_str sd m (person_elem_to_dict e m))}.
            (\<exists>fs'. \<not> io_ok (IoOpen p) fs') \<or> (\<exists>c fs'. \<not> io_ok (IoWrite p c) fs')"
    by blast+
  from assms(4) t have "\<forall>p \<in> {json_path od (year_str sd m (person_elem_to_dict e m)),
                 yaml_path od (year_str sd m (person_elem_to_dict e m))}.
           (\<forall>fs. io_ok (IoOpen p) fs) \<and> (\<forall>c fs. io_ok (IoWrite p c) fs)"
    by (simp add: routed_Cons)
  with r show ?thesis by blast
next
  case (Inr st')
  then show ?thesis by blast
qed

lemma main_loop_progress_inv:
  assumes "json_inv od rs st" and "yaml_inv od rs st" and "dom_inv od st"
    and "\<forall>y \<in> fst ` set (routed sd m rt elems). \<forall>p \<in> {json_path od y, yaml_path od y}.
           (\<forall>fs. io_ok (IoOpen p) fs) \<and> (\<forall>c fs. io_ok (IoWrite p c) fs)"
  shows "\<exists>st'. main_loop sd io_ok m od rt elems None st = Inr st'"
  using assms
proof (induction elems arbitrary: rs st)
  case Nil
  show ?case by simp
next
  case (Cons e es)
  have split: "routed sd m rt (e # es) = routed sd m rt [e] @ routed sd m rt es"
    by (simp add: routed_Cons)
  have hd: "\<forall>y \<in> fst ` set (routed sd m rt [e]). \<forall>p \<in> {json_path od y, yaml_path od y}.
           (\<forall>fs. io_ok (IoOpen p) fs) \<and> (\<forall>c fs. io_ok (IoWrite p c) fs)"
  proof
    fix y assume "y \<in> fst ` set (routed sd m rt [e])"
    then have "y \<in> fst ` set (routed sd m rt (e # es))" unfolding split by auto
    with Cons.prems(4) show "\<forall>p \<in> {json_path od y, yaml_path od y}.
           (\<forall>fs. io_ok (IoOpen p) fs) \<and> (\<forall>c fs. io_ok (IoWrite p c) fs)" by (rule bspec)
  qed
  have tl: "\<forall>y \<in> fst ` set (routed sd m rt es). \<forall>p \<in> {json_path od y, yaml_path od y}.
           (\<forall>fs. io_ok (IoOpen p) fs) \<and> (\<forall>c fs. io_ok (IoWrite p c) fs)"
  proof
    fix y assume "y \<in> fst ` set (routed sd m rt es)"
    then have "y \<in> fst ` set (routed sd m rt (e # es))" unfolding split by auto
    with Cons.prems(4) show "\<forall>p \<in> {json_path od y, yaml_path od y}.
           (\<forall>fs. io_ok (IoOpen p) fs) \<and> (\<forall>c fs. io_ok (IoWrite p c) fs)" by (rule bspec)
  qed
  from process_elem_progress [OF Cons.prems(1-3) hd]
  obtain st' where P: "process_elem sd io_ok m od rt e st = Inr st'" ..
  from process_elem_inv [OF Cons.prems(1-3) P]
  have "json_inv od (rs @ routed sd m rt [e]) st'" "yaml_inv od (rs @ routed sd m rt [e]) st'"
    "dom_inv od st'" by blast+
  from Cons.IH [OF this tl] P show ?case by simp
qed

lemma main_loop_progress:
  assumes "\<forall>y \<in> fst ` set (routed sd m rt elems). \<forall>p \<in> {json_path od y, yaml_path od y}.
           (\<forall>fs. io_ok (IoOpen p) fs) \<and> (\<forall>c fs. io_ok (IoWrite p c) fs)"
  shows "\<exists>st'. main_loop sd io_ok m od rt elems None initial_state = Inr st'"
  using initial_inv assms by (rule main_loop_progress_inv)

lemma close_json_loop_progress:
  assumes "\<forall>op fs. io_ok op fs" and "distinct (map (\<lambda>yw. handle (snd yw)) ws)"
    and "\<forall>yw \<in> set ws. \<exists>fl. fs (handle (snd yw)) = Some fl \<and> closes fl < opens fl"
  shows "\<exists>fs'. close_json_loop io_ok ws fs = Inr fs'"
  using assms(2,3)
proof (induction ws arbitrary: fs)
  case Nil
  show ?case by simp
next
  case (Cons a ws)
  obtain y w where a: "a = (y, w)" by (cases a)
  from Cons.prems(1) have d: "distinct (map (\<lambda>yw. handle (snd yw)) ws)"
    and n: "handle w \<notin> (\<lambda>yw. handle (snd yw)) ` set ws"
    by (simp_all add: a)
  from Cons.prems(2) obtain fl where fl: "fs (handle w) = Some fl" and o: "closes fl < opens fl"
    by (auto simp: a)
  have "\<exists>fs1. JsonArrayWriter_close io_ok w fs = Inr fs1 \<and>
      fs1 = fs(handle w \<mapsto> fl\<lparr>content := content fl @ [Text ''\<newline>]\<newline>''], closes := closes fl + 1\<rparr>)"
    using assms(1) fl o by (simp add: JsonArrayWriter_close_def file_write_def file_close_def)
  then obtain fs1 where c: "JsonArrayWriter_close io_ok w fs = Inr fs1"
    and fs1: "fs1 = fs(handle w \<mapsto> fl\<lparr>content := content fl @ [Text ''\<newline>]\<newline>''], closes := closes fl + 1\<rparr>)"
    by blast
  have "\<forall>yw \<in> set ws. \<exists>fl. fs1 (handle (snd yw)) = Some fl \<and> closes fl < opens fl"
  proof
    fix yw assume m: "yw \<in> set ws"
    with n have "handle (snd yw) \<noteq> handle w" by force
    moreover from Cons.prems(2) m
    have "\<exists>fl. fs (handle (snd yw)) = Some fl \<and> closes fl < opens fl" by simp
    ultimately show "\<exists>fl. fs1 (handle (snd yw)) = Some fl \<and> closes fl < opens fl"
      unfolding fs1 by simp
  qed
  from Cons.IH [OF d this] c show ?case by (simp add: a)
qed

lemma close_yaml_loop_progress:
  assumes "\<forall>op fs. io_ok op fs" and "\<forall>h \<in> snd ` set fhs. fs h \<noteq> None"
  shows "\<exists>fs'. close_yaml_loop io_ok fhs fs = Inr fs'"
  using assms(2)
proof (induction fhs arbitrary: fs)
  case Nil
  show ?case by simp
next
  case (Cons a fhs)
  obtain y h where a: "a = (y, h)" by (cases a)
  from Cons.prems obtain fl where fl: "fs h = Some fl" by (auto simp: a)
  from assms(1) fl have "\<exists>fs1. file_close io_ok h fs = Inr fs1"
    by (simp add: file_close_def)
  then obtain fs1 where c: "file_close io_ok h fs = Inr fs1" ..
  have "\<forall>h' \<in> snd ` set fhs. fs1 h' \<noteq> None"
    using Cons.prems by (auto simp: a file_close_apply [OF c])
  from Cons.IH [OF this] c show ?case by (simp add: a)
qed

lemma close_writers_progress:
  assumes J: "json_inv od rs st" and Y: "yaml_inv od rs st" and ok: "\<forall>op fs. io_ok op fs"
  shows "\<exists>st'. close_writers io_ok st = Inr st'"
proof -
  note h = inv_handle_sets [OF J Y]
  have "\<forall>yw \<in> set (json_writers st). \<exists>fl. files st (handle (snd yw)) = Some fl \<and> closes fl < opens fl"
  proof
    fix yw assume "yw \<in> set (json_writers st)"
    then have "handle (snd yw) \<in> json_path od ` fst ` set rs" unfolding h(3) [symmetric] by blast
    then obtain y where y: "y \<in> fst ` set rs" and p: "handle (snd yw) = json_path od y" by blast
    from json_invD(4) [OF J y] p
    show "\<exists>fl. files st (handle (snd yw)) = Some fl \<and> closes fl < opens fl" by simp
  qed
  from close_json_loop_progress [OF ok h(1) this]
  obtain fs1 where c1: "close_json_loop io_ok (json_writers st) (files st) = Inr fs1" ..
  have "\<forall>p \<in> snd ` set (yaml_files st). fs1 p \<noteq> None"
  proof
    fix p assume "p \<in> snd ` set (yaml_files st)"
    then have "p \<in> yaml_path od ` fst ` set rs" unfolding h(4) .
    then obtain y where y: "y \<in> fst ` set rs" and p: "p = yaml_path od y" by blast
    from yaml_invD(4) [OF Y y] p have "files st p \<noteq> None" by simp
    then show "fs1 p \<noteq> None" by (auto simp: close_json_loop_Inr [OF h(1) c1])
  qed
  from close_yaml_loop_progress [OF ok this]
  obtain fs2 where c2: "close_yaml_loop io_ok (yaml_files st) fs1 = Inr fs2" ..
  from c1 c2 show ?thesis by (simp add: close_writers_def)
qed

lemma main_progress:
  assumes "\<forall>op fs. io_ok op fs"
  shows "\<exists>st'. main sd io_ok m od rt elems None = Inr st'"
proof -
  from assms have "\<forall>y \<in> fst ` set (routed sd m rt elems). \<forall>p \<in> {json_path od y, yaml_path od y}.
           (\<forall>fs. io_ok (IoOpen p) fs) \<and> (\<forall>c fs. io_ok (IoWrite p c) fs)" by simp
  from main_loop_progress [OF this]
  obtain st where L: "main_loop sd io_ok m od rt elems None initial_state = Inr st" ..
  from close_writers_progress [OF loop_state_inv(1,2) [OF L] assms]
  obtain st' where "close_writers io_ok st = Inr st'" ..
  with L show ?thesis by (simp add: main_def)
qed

text \<open>
  Claim C2, as amended.  Nothing catches an exception inside the loop.  When the loop has
  processed the elements \<open>xs\<close> and the next element raises, the run ends with that
  exception whatever elements follow and whatever the reader would have done after them:
  the element is a record, the exception is the \<^verbatim>\<open>OSError\<close> of one of the two files
  of its key, and no file has been closed.  When the reader raises after the elements it has yielded,
  the run ends with that exception and no file has been closed.  The closing loops are
  reached only by a run whose loop has drained the source without an exception; when they
  too end without one, the run ends normally, the closing loops have neither removed nor
  created a file, every key that received a record has its two files, each opened once and
  closed once, the JSON file ending with its closing bracket, and there is no other file.
\<close>

theorem failure_aborts_run:
  "(main_loop sd io_ok m od rt xs None initial_state = Inr st1 \<and>
      process_elem sd io_ok m od rt e st1 = Inl (err, st2) \<longrightarrow>
        main sd io_ok m od rt (xs @ e # ys) raised = Inl (err, st2) \<and>
        tag e = rt \<and>
        (err = OSError (json_path od (year_str sd m (person_elem_to_dict e m))) \<or>
         err = OSError (yaml_path od (year_str sd m (person_elem_to_dict e m)))) \<and>
        (\<forall>p fl. files st2 p = Some fl \<longrightarrow> opens fl = 1 \<and> closes fl = 0)) \<and>
   (main_loop sd io_ok m od rt elems None initial_state = Inr st \<longrightarrow>
      main sd io_ok m od rt elems (Some err) = Inl (err, st) \<and>
      (\<forall>p fl. files st p = Some fl \<longrightarrow> opens fl = 1 \<and> closes fl = 0)) \<and>
   (main sd io_ok m od rt elems raised = Inr st' \<longrightarrow>
      raised = None \<and>
      (\<exists>st. main_loop sd io_ok m od rt elems None initial_state = Inr st \<and>
            close_writers io_ok st = Inr st' \<and>
            (\<forall>p. files st' p = None \<longleftrightarrow> files st p = None)) \<and>
      (\<forall>y \<in> fst ` set (routed sd m rt elems).
         files st' (json_path od y) =
           Some \<lparr>content = json_array (records_for y (routed sd m rt elems)), opens = 1, closes = 1\<rparr> \<and>
         files st' (yaml_path od y) =
           Some \<lparr>content = yaml_stream (records_for y (routed sd m rt elems)), opens = 1, closes = 1\<rparr>) \<and>
      (\<forall>p fl. files st' p = Some fl \<longrightarrow>
         opens fl = 1 \<and> closes fl = 1 \<and>
         (\<exists>y \<in> fst ` set (routed sd m rt elems). p = json_path od y \<or> p = yaml_path od y)))"
proof (intro conjI impI)
  assume h: "main_loop sd io_ok m od rt xs None initial_state = Inr st1 \<and>
      process_elem sd io_ok m od rt e st1 = Inl (err, st2)"
  then have L: "main_loop sd io_ok m od rt (xs @ e # ys) raised initial_state = Inl (err, st2)"
    by (simp add: main_loop_append)
  then show "main sd io_ok m od rt (xs @ e # ys) raised = Inl (err, st2)"
    by (simp add: main_def)
  from h have L1: "main_loop sd io_ok m od rt xs None initial_state = Inr st1"
    and P: "process_elem sd io_ok m od rt e st1 = Inl (err, st2)" by simp_all
  note pe = process_elem_Inl [OF loop_state_inv(1-3) [OF L1] P]
  from pe show "tag e = rt" by (rule conjunct1)
  from pe show "err = OSError (json_path od (year_str sd m (person_elem_to_dict e m))) \<or>
      err = OSError (yaml_path od (year_str sd m (person_elem_to_dict e m)))" by blast
  from pe have "unclosed (files st2)" by blast
  then show "\<forall>p fl. files st2 p = Some fl \<longrightarrow> opens fl = 1 \<and> closes fl = 0"
    by (simp add: unclosed_def)
next
  assume L: "main_loop sd io_ok m od rt elems None initial_state = Inr st"
  from main_loop_raised [OF L] show "main sd io_ok m od rt elems (Some err) = Inl (err, st)"
    by (simp add: main_def)
  from inv_unclosed [OF loop_state_inv(1-3) [OF L]]
  show "\<forall>p fl. files st p = Some fl \<longrightarrow> opens fl = 1 \<and> closes fl = 0"
    by (simp add: unclosed_def)
next
  assume M: "main sd io_ok m od rt elems raised = Inr st'"
  then obtain st where L: "main_loop sd io_ok m od rt elems raised initial_state = Inr st"
    and C: "close_writers io_ok st = Inr st'"
    by (auto simp: main_def split: sum.splits)
  note inv = loop_state_inv [OF L]
  from inv(4) show r: "raised = None" .
  from L r have L': "main_loop sd io_ok m od rt elems None initial_state = Inr st" by simp
  have "\<forall>p. files st' p = None \<longleftrightarrow> files st p = None"
    using closed_dom [OF inv(1,2) C] by blast
  with L' C show "\<exists>st. main_loop sd io_ok m od rt elems None initial_state = Inr st \<and>
            close_writers io_ok st = Inr st' \<and>
            (\<forall>p. files st' p = None \<longleftrightarrow> files st p = None)" by blast
  show "\<forall>y \<in> fst ` set (routed sd m rt elems).
         files st' (json_path od y) =
           Some \<lparr>content = json_array (records_for y (routed sd m rt elems)), opens = 1, closes = 1\<rparr> \<and>
         files st' (yaml_path od y) =
           Some \<lparr>content = yaml_stream (records_for y (routed sd m rt elems)), opens = 1, closes = 1\<rparr>"
    using closed_files [OF inv(1,2) C] by blast
  show "\<forall>p fl. files st' p = Some fl \<longrightarrow>
         opens fl = 1 \<and> closes fl = 1 \<and>
         (\<exists>y \<in> fst ` set (routed sd m rt elems). p = json_path od y \<or> p = yaml_path od y)"
    using closed_once [OF inv(1-3) C] by blast
qed

lemma is_dump_simps [simp]:
  "is_dump (Text t) = False" "is_dump (JsonDump r) = True" "is_dump (YamlDump r) = True"
  "is_dump (Partial c) = False"
  by (simp_all add: is_dump_def)

lemma json_elements_dumps:
  "filter is_dump (json_elements rs) = map JsonDump rs"
  "filter (\<lambda>c. \<not> is_dump c) (json_elements rs) = replicate (length rs - 1) (Text '',\<newline>'')"
proof -
  have a: "filter is_dump (concat (map (\<lambda>x. [Text '',\<newline>'', JsonDump x]) xs)) = map JsonDump xs" for xs
    by (induction xs) simp_all
  have b: "filter (\<lambda>c. \<not> is_dump c) (concat (map (\<lambda>x. [Text '',\<newline>'', JsonDump x]) xs)) =
      replicate (length xs) (Text '',\<newline>'')" for xs
    by (induction xs) simp_all
  show "filter is_dump (json_elements rs) = map JsonDump rs"
    by (cases rs) (simp_all add: a)
  show "filter (\<lambda>c. \<not> is_dump c) (json_elements rs) = replicate (length rs - 1) (Text '',\<newline>'')"
    by (cases rs) (simp_all add: b)
qed

lemma yaml_stream_dumps:
  "filter is_dump (yaml_stream rs) = map YamlDump rs"
  "filter (\<lambda>c. \<not> is_dump c) (yaml_stream rs) = replicate (length rs) (Text ''\<newline>'')"
  by (induction rs) (simp_all add: yaml_stream_def)

text \<open>
  Claim C3, the part the code meets and what it writes instead of the rest.  After a run
  that ends normally, the JSON file of a key that received records holds the opening
  bracket, one \<^verbatim>\<open>json.dump\<close> for each record of the key in order with a separator
  before every one except the first, and the closing bracket.  The YAML file of the key
  holds one \<^verbatim>\<open>yaml.safe_dump\<close> for each record, each followed by a newline and by
  nothing else: the program writes no document marker between two records.
\<close>

theorem output_files_shape:
  assumes "main sd io_ok m od rt elems raised = Inr st"
    and "y \<in> fst ` set (routed sd m rt elems)"
  shows "files st (json_path od y) =
           Some \<lparr>content = json_array (records_for y (routed sd m rt elems)), opens = 1, closes = 1\<rparr> \<and>
         files st (yaml_path od y) =
           Some \<lparr>content = yaml_stream (records_for y (routed sd m rt elems)), opens = 1, closes = 1\<rparr> \<and>
         filter is_dump (json_array rs) = map JsonDump rs \<and>
         filter (\<lambda>c. \<not> is_dump c) (json_array rs) =
           Text ''[\<newline>'' # replicate (length rs - 1) (Text '',\<newline>'') @ [Text ''\<newline>]\<newline>''] \<and>
         filter is_dump (yaml_stream rs) = map YamlDump rs \<and>
         filter (\<lambda>c. \<not> is_dump c) (yaml_stream rs) = replicate (length rs) (Text ''\<newline>'')"
proof -
  from assms(1) obtain st0 where L: "main_loop sd io_ok m od rt elems raised initial_state = Inr st0"
    and C: "close_writers io_ok st0 = Inr st"
    by (auto simp: main_def split: sum.splits)
  note inv = loop_state_inv [OF L]
  from closed_files [OF inv(1) inv(2) C assms(2)]
  have 1: "files st (json_path od y) =
           Some \<lparr>content = json_array (records_for y (routed sd m rt elems)), opens = 1, closes = 1\<rparr>"
    and 2: "files st (yaml_path od y) =
           Some \<lparr>content = yaml_stream (records_for y (routed sd m rt elems)), opens = 1, closes = 1\<rparr>"
    by simp_all
  have 3: "filter is_dump (json_array rs) = map JsonDump rs"
    by (simp add: json_array_def json_elements_dumps)
  have 4: "filter (\<lambda>c. \<not> is_dump c) (json_array rs) =
           Text ''[\<newline>'' # replicate (length rs - 1) (Text '',\<newline>'') @ [Text ''\<newline>]\<newline>'']"
    by (simp add: json_array_def json_elements_dumps)
  from 1 2 3 4 yaml_stream_dumps [of rs] show ?thesis by (intro conjI)
qed

text \<open>
  Claim C4, as amended.  In every run, once the loop has got through its first \<open>n\<close>
  elements there is a JSON writer and a YAML file exactly for the keys that have received a
  record, one for each key, bound to \<open>people_<key>.json\<close> and \<open>people_<key>.yaml\<close> in
  the output directory; the file behind each has been opened once and not closed and holds
  all records of its key so far.  In a run whose loop an exception leaves, no file is ever
  closed: the run ends with that exception, every file opened once and not closed.  In a
  run that ends normally the loop has got through every prefix, and after the closing
  loops the writer of every key is the one bound to its path, its file has been opened once
  and closed once and holds all records of the key, and there is no file that was not
  opened once and closed once.
\<close>

theorem writers_lazy_single:
  "(main_loop sd io_ok m od rt (take n elems) None initial_state = Inr stn \<longrightarrow>
      fst ` set (json_writers stn) = fst ` set (routed sd m rt (take n elems)) \<and>
      fst ` set (yaml_files stn) = fst ` set (routed sd m rt (take n elems)) \<and>
      distinct (map fst (json_writers stn)) \<and> distinct (map fst (yaml_files stn)) \<and>
      (\<forall>y \<in> fst ` set (routed sd m rt (take n elems)).
         map_of (json_writers stn) y =
           Some \<lparr>handle = od @ ''/people_'' @ y @ ''.json'', first = False\<rparr> \<and>
         map_of (yaml_files stn) y = Some (od @ ''/people_'' @ y @ ''.yaml'') \<and>
         files stn (od @ ''/people_'' @ y @ ''.json'') =
           Some \<lparr>content = Text ''[\<newline>'' #
                    json_elements (records_for y (routed sd m rt (take n elems))),
                 opens = 1, closes = 0\<rparr> \<and>
         files stn (od @ ''/people_'' @ y @ ''.yaml'') =
           Some \<lparr>content = yaml_stream (records_for y (routed sd m rt (take n elems))),
                 opens = 1, closes = 0\<rparr>) \<and>
      (\<forall>p fl. files stn p = Some fl \<longrightarrow> opens fl = 1 \<and> closes fl = 0)) \<and>
   (main_loop sd io_ok m od rt elems raised initial_state = Inl (err, st2) \<longrightarrow>
      main sd io_ok m od rt elems raised = Inl (err, st2) \<and>
      (\<forall>p fl. files st2 p = Some fl \<longrightarrow> opens fl = 1 \<and> closes fl = 0)) \<and>
   (main sd io_ok m od rt elems raised = Inr st' \<longrightarrow>
      (\<exists>stn. main_loop sd io_ok m od rt (take n elems) None initial_state = Inr stn) \<and>
      fst ` set (json_writers st') = fst ` set (routed sd m rt elems) \<and>
      fst ` set (yaml_files st') = fst ` set (routed sd m rt elems) \<and>
      distinct (map fst (json_writers st')) \<and> distinct (map fst (yaml_files st')) \<and>
      (\<forall>y \<in> fst ` set (routed sd m rt elems).
         map_of (json_writers st') y =
           Some \<lparr>handle = od @ ''/people_'' @ y @ ''.json'', first = False\<rparr> \<and>
         map_of (yaml_files st') y = Some (od @ ''/people_'' @ y @ ''.yaml'') \<and>
         files st' (od @ ''/people_'' @ y @ ''.json'') =
           Some \<lparr>content = json_array (records_for y (routed sd m rt elems)), opens = 1, closes = 1\<rparr> \<and>
         files st' (od @ ''/people_'' @ y @ ''.yaml'') =
           Some \<lparr>content = yaml_stream (records_for y (routed sd m rt elems)), opens = 1, closes = 1\<rparr>) \<and>
      (\<forall>p fl. files st' p = Some fl \<longrightarrow> opens fl = 1 \<and> closes fl = 1))"
proof (intro conjI impI)
  let ?rs = "routed sd m rt (take n elems)"
  assume L: "main_loop sd io_ok m od rt (take n elems) None initial_state = Inr stn"
  note inv = loop_state_inv [OF L]
  show "fst ` set (json_writers stn) = fst ` set ?rs" by (rule json_invD(2) [OF inv(1)])
  show "fst ` set (yaml_files stn) = fst ` set ?rs" by (rule yaml_invD(2) [OF inv(2)])
  show "distinct (map fst (json_writers stn))" by (rule json_invD(1) [OF inv(1)])
  show "distinct (map fst (yaml_files stn))" by (rule yaml_invD(1) [OF inv(2)])
  show "\<forall>y \<in> fst ` set ?rs.
         map_of (json_writers stn) y =
           Some \<lparr>handle = od @ ''/people_'' @ y @ ''.json'', first = False\<rparr> \<and>
         map_of (yaml_files stn) y = Some (od @ ''/people_'' @ y @ ''.yaml'') \<and>
         files stn (od @ ''/people_'' @ y @ ''.json'') =
           Some \<lparr>content = Text ''[\<newline>'' # json_elements (records_for y ?rs),
                 opens = 1, closes = 0\<rparr> \<and>
         files stn (od @ ''/people_'' @ y @ ''.yaml'') =
           Some \<lparr>content = yaml_stream (records_for y ?rs), opens = 1, closes = 0\<rparr>"
  proof
    fix y assume y: "y \<in> fst ` set ?rs"
    from json_invD(3,4) [OF inv(1) y] yaml_invD(3,4) [OF inv(2) y]
    show "map_of (json_writers stn) y =
           Some \<lparr>handle = od @ ''/people_'' @ y @ ''.json'', first = False\<rparr> \<and>
         map_of (yaml_files stn) y = Some (od @ ''/people_'' @ y @ ''.yaml'') \<and>
         files stn (od @ ''/people_'' @ y @ ''.json'') =
           Some \<lparr>content = Text ''[\<newline>'' # json_elements (records_for y ?rs),
                 opens = 1, closes = 0\<rparr> \<and>
         files stn (od @ ''/people_'' @ y @ ''.yaml'') =
           Some \<lparr>content = yaml_stream (records_for y ?rs), opens = 1, closes = 0\<rparr>"
      by (simp add: json_path_def yaml_path_def)
  qed
  show "\<forall>p fl. files stn p = Some fl \<longrightarrow> opens fl = 1 \<and> closes fl = 0"
    using inv_unclosed [OF inv(1-3)] by (simp add: unclosed_def)
next
  assume L: "main_loop sd io_ok m od rt elems raised initial_state = Inl (err, st2)"
  then show "main sd io_ok m od rt elems raised = Inl (err, st2)" by (simp add: main_def)
  from main_loop_Inl [OF initial_inv L]
  show "\<forall>p fl. files st2 p = Some fl \<longrightarrow> opens fl = 1 \<and> closes fl = 0"
    by (simp add: unclosed_def)
next
  let ?rs = "routed sd m rt elems"
  assume M: "main sd io_ok m od rt elems raised = Inr st'"
  then obtain st where L: "main_loop sd io_ok m od rt elems raised initial_state = Inr st"
    and C: "close_writers io_ok st = Inr st'"
    by (auto simp: main_def split: sum.splits)
  note inv = loop_state_inv [OF L]
  note cw = close_writers_Inr(1,2) [OF inv(1,2) C]
  have "elems = take n elems @ drop n elems" by simp
  then have "main_loop sd io_ok m od rt (take n elems @ drop n elems) raised initial_state = Inr st"
    using L by simp
  then have "(case main_loop sd io_ok m od rt (take n elems) None initial_state of
        Inl x \<Rightarrow> Inl x
      | Inr st1 \<Rightarrow> main_loop sd io_ok m od rt (drop n elems) raised st1) = Inr st"
    by (simp only: main_loop_append)
  then show "\<exists>stn. main_loop sd io_ok m od rt (take n elems) None initial_state = Inr stn"
    by (cases "main_loop sd io_ok m od rt (take n elems) None initial_state") simp_all
  show "fst ` set (json_writers st') = fst ` set ?rs"
    unfolding cw by (rule json_invD(2) [OF inv(1)])
  show "fst ` set (yaml_files st') = fst ` set ?rs"
    unfolding cw by (rule yaml_invD(2) [OF inv(2)])
  show "distinct (map fst (json_writers st'))" unfolding cw by (rule json_invD(1) [OF inv(1)])
  show "distinct (map fst (yaml_files st'))" unfolding cw by (rule yaml_invD(1) [OF inv(2)])
  show "\<forall>y \<in> fst ` set ?rs.
         map_of (json_writers st') y =
           Some \<lparr>handle = od @ ''/people_'' @ y @ ''.json'', first = False\<rparr> \<and>
         map_of (yaml_files st') y = Some (od @ ''/people_'' @ y @ ''.yaml'') \<and>
         files st' (od @ ''/people_'' @ y @ ''.json'') =
           Some \<lparr>content = json_array (records_for y ?rs), opens = 1, closes = 1\<rparr> \<and>
         files st' (od @ ''/people_'' @ y @ ''.yaml'') =
           Some \<lparr>content = yaml_stream (records_for y ?rs), opens = 1, closes = 1\<rparr>"
  proof
    fix y assume y: "y \<in> fst ` set ?rs"
    from json_invD(3) [OF inv(1) y] yaml_invD(3) [OF inv(2) y] closed_files [OF inv(1,2) C y]
    show "map_of (json_writers st') y =
           Some \<lparr>handle = od @ ''/people_'' @ y @ ''.json'', first = False\<rparr> \<and>
         map_of (yaml_files st') y = Some (od @ ''/people_'' @ y @ ''.yaml'') \<and>
         files st' (od @ ''/people_'' @ y @ ''.json'') =
           Some \<lparr>content = json_array (records_for y ?rs), opens = 1, closes = 1\<rparr> \<and>
         files st' (od @ ''/people_'' @ y @ ''.yaml'') =
           Some \<lparr>content = yaml_stream (records_for y ?rs), opens = 1, closes = 1\<rparr>"
      unfolding cw by (simp add: json_path_def yaml_path_def)
  qed
  show "\<forall>p fl. files st' p = Some fl \<longrightarrow> opens fl = 1 \<and> closes fl = 1"
    using closed_once [OF inv(1-3) C] by blast
qed

lemma scenario_records:
  "person_elem_to_dict born_1990a Map.empty = [(''birth'', Scalar ''1990-01-01'')]"
  "person_elem_to_dict undated Map.empty = [(''birth'', Scalar ''not-a-date'')]"
  "person_elem_to_dict born_1990b Map.empty = [(''birth'', Scalar ''1990-12-31'')]"
  by (simp_all add: born_1990a_def undated_def born_1990b_def birth_1990a_def birth_undated_def
      birth_1990b_def person_elem_to_dict_def child_value_def text_value_def str_strip_def
      isspace_char_def)

lemma scenario_years:
  "year_str (\<lambda>d. []) Map.empty [(''birth'', Scalar ''1990-01-01'')] = ''1990''"
  "year_str (\<lambda>d. []) Map.empty [(''birth'', Scalar ''not-a-date'')] = ''unknown''"
  "year_str (\<lambda>d. []) Map.empty [(''birth'', Scalar ''1990-12-31'')] = ''1990''"
  by (simp_all add: year_str_def birth_val_def candidates_def year_of_def date_text_def
      extract_year_from_birth_def is_decimal_def str_split_def str_isdigit_def isdigit_char_def)

lemma scenario_tags:
  "tag birth_1990a = ''birth''" "tag birth_undated = ''birth''" "tag birth_1990b = ''birth''"
  "tag born_1990a = ''person''" "tag undated = ''person''" "tag born_1990b = ''person''"
  by (simp_all add: born_1990a_def undated_def born_1990b_def birth_1990a_def birth_undated_def
      birth_1990b_def)

lemma scenario_routed:
  "routed (\<lambda>d. []) Map.empty ''person'' scenario =
     [(''1990'', [(''birth'', Scalar ''1990-01-01'')]),
      (''unknown'', [(''birth'', Scalar ''not-a-date'')]),
      (''1990'', [(''birth'', Scalar ''1990-12-31'')])]"
  "routed (\<lambda>d. []) Map.empty ''person'' [birth_1990a, born_1990a, birth_undated] =
     [(''1990'', [(''birth'', Scalar ''1990-01-01'')])]"
  "routed (\<lambda>d. []) Map.empty ''person'' [birth_1990a, born_1990a] =
     [(''1990'', [(''birth'', Scalar ''1990-01-01'')])]"
  by (simp_all add: scenario_def routed_Cons scenario_tags scenario_records scenario_years)

lemma main_loop_abort:
  assumes "main_loop sd io_ok m od rt xs None st = Inr st1"
    and "process_elem sd io_ok m od rt e st1 = Inl x"
  shows "main_loop sd io_ok m od rt (xs @ e # ys) raised st = Inl x"
  using assms by (simp add: main_loop_append)

lemma abort_at_undated:
  "\<exists>st1. main_loop (\<lambda>d. []) unknown_unwritable Map.empty ''out'' ''person''
             [birth_1990a, born_1990a, birth_undated] None initial_state = Inr st1 \<and>
         process_elem (\<lambda>d. []) unknown_unwritable Map.empty ''out'' ''person'' undated st1 =
           Inl (OSError ''out/people_unknown.json'', st1) \<and>
         files st1 ''out/people_1990.json'' =
           Some \<lparr>content = [Text ''[\<newline>'', JsonDump [(''birth'', Scalar ''1990-01-01'')]],
                 opens = 1, closes = 0\<rparr> \<and>
         files st1 ''out/people_1990.yaml'' =
           Some \<lparr>content = [YamlDump [(''birth'', Scalar ''1990-01-01'')], Text ''\<newline>''],
                 opens = 1, closes = 0\<rparr> \<and>
         files st1 ''out/people_unknown.json'' = None \<and>
         files st1 ''out/people_unknown.yaml'' = None"
proof -
  let ?xs = "[birth_1990a, born_1990a, birth_undated]"
  have "\<forall>y \<in> fst ` set (routed (\<lambda>d. []) Map.empty ''person'' ?xs).
      \<forall>p \<in> {json_path ''out'' y, yaml_path ''out'' y}.
        (\<forall>fs. unknown_unwritable (IoOpen p) fs) \<and> (\<forall>c fs. unknown_unwritable (IoWrite p c) fs)"
    by (simp add: scenario_routed unknown_unwritable_def json_path_def yaml_path_def)
  then have "\<exists>st1. main_loop (\<lambda>d. []) unknown_unwritable Map.empty ''out'' ''person''
      ?xs None initial_state = Inr st1"
    by (rule main_loop_progress)
  then obtain st1 where L: "main_loop (\<lambda>d. []) unknown_unwritable Map.empty ''out'' ''person''
      ?xs None initial_state = Inr st1" ..
  note inv = loop_state_inv(1-3) [OF L, unfolded scenario_routed]
  have k: "''1990'' \<in> fst ` set [(''1990'', [(''birth'', Scalar ''1990-01-01'')])]" by simp
  have "''unknown'' \<notin> fst ` set (json_writers st1)"
    unfolding json_invD(2) [OF inv(1)] by simp
  then have none: "map_of (json_writers st1) ''unknown'' = None"
    by (simp add: map_of_eq_None_iff)
  have nw: "\<not> unknown_unwritable (IoOpen (json_path ''out'' ''unknown'')) (files st1)"
    by (simp add: unknown_unwritable_def json_path_def)
  from none nw have "json_route unknown_unwritable ''out'' ''unknown''
      [(''birth'', Scalar ''not-a-date'')] st1 = Inl (OSError (json_path ''out'' ''unknown''), st1)"
    by (rule json_route_fail)
  then have P: "process_elem (\<lambda>d. []) unknown_unwritable Map.empty ''out'' ''person'' undated st1 =
      Inl (OSError ''out/people_unknown.json'', st1)"
    by (simp add: process_elem_def scenario_tags scenario_records scenario_years route_def
        json_path_def)
  have f1: "files st1 ''out/people_1990.json'' =
      Some \<lparr>content = [Text ''[\<newline>'', JsonDump [(''birth'', Scalar ''1990-01-01'')]],
            opens = 1, closes = 0\<rparr>"
    using json_invD(4) [OF inv(1) k] by (simp add: json_path_def records_for_def)
  have f2: "files st1 ''out/people_1990.yaml'' =
      Some \<lparr>content = [YamlDump [(''birth'', Scalar ''1990-01-01'')], Text ''\<newline>''],
            opens = 1, closes = 0\<rparr>"
    using yaml_invD(4) [OF inv(2) k] by (simp add: yaml_path_def records_for_def yaml_stream_def)
  have "files st1 (json_path ''out'' ''unknown'') = None"
    using inv(1) inv(3) by (rule json_file_fresh) simp
  then have f3: "files st1 ''out/people_unknown.json'' = None" by (simp add: json_path_def)
  have "files st1 (yaml_path ''out'' ''unknown'') = None"
    using inv(2) inv(3) by (rule yaml_file_fresh) simp
  then have f4: "files st1 ''out/people_unknown.yaml'' = None" by (simp add: yaml_path_def)
  from L P f1 f2 f3 f4 show ?thesis by (intro exI [of _ st1] conjI)
qed

lemma first_record_routed:
  "\<exists>st. main_loop (\<lambda>d. []) (\<lambda>op fs. True) Map.empty ''out'' ''person''
            [birth_1990a, born_1990a] None initial_state = Inr st \<and>
         files st ''out/people_1990.json'' =
           Some \<lparr>content = [Text ''[\<newline>'', JsonDump [(''birth'', Scalar ''1990-01-01'')]],
                 opens = 1, closes = 0\<rparr> \<and>
         files st ''out/people_1990.yaml'' =
           Some \<lparr>content = [YamlDump [(''birth'', Scalar ''1990-01-01'')], Text ''\<newline>''],
                 opens = 1, closes = 0\<rparr>"
proof -
  have "\<exists>st. main_loop (\<lambda>d. []) (\<lambda>op fs. True) Map.empty ''out'' ''person''
      [birth_1990a, born_1990a] None initial_state = Inr st"
    by (rule main_loop_progress) simp
  then obtain st where L: "main_loop (\<lambda>d. []) (\<lambda>op fs. True) Map.empty ''out'' ''person''
      [birth_1990a, born_1990a] None initial_state = Inr st" ..
  note inv = loop_state_inv(1-3) [OF L, unfolded scenario_routed]
  have k: "''1990'' \<in> fst ` set [(''1990'', [(''birth'', Scalar ''1990-01-01'')])]" by simp
  have f1: "files st ''out/people_1990.json'' =
      Some \<lparr>content = [Text ''[\<newline>'', JsonDump [(''birth'', Scalar ''1990-01-01'')]],
            opens = 1, closes = 0\<rparr>"
    using json_invD(4) [OF inv(1) k] by (simp add: json_path_def records_for_def)
  have f2: "files st ''out/people_1990.yaml'' =
      Some \<lparr>content = [YamlDump [(''birth'', Scalar ''1990-01-01'')], Text ''\<newline>''],
            opens = 1, closes = 0\<rparr>"
    using yaml_invD(4) [OF inv(2) k] by (simp add: yaml_path_def records_for_def yaml_stream_def)
  from L f1 f2 show ?thesis by (intro exI [of _ st] conjI)
qed

lemma scenario_run:
  "\<exists>st. main (\<lambda>d. []) (\<lambda>op fs. True) Map.empty ''out'' ''person'' scenario None = Inr st"
  by (rule main_progress) simp

theorem failure_aborts_run_counterexample:
  "isl aborted_run \<and> fst (projl aborted_run) = OSError ''out/people_unknown.json'' \<and>
   files (snd (projl aborted_run)) ''out/people_1990.json'' =
     Some \<lparr>content = [Text ''[\<newline>'', JsonDump [(''birth'', Scalar ''1990-01-01'')]],
           opens = 1, closes = 0\<rparr> \<and>
   files (snd (projl aborted_run)) ''out/people_1990.yaml'' =
     Some \<lparr>content = [YamlDump [(''birth'', Scalar ''1990-01-01'')], Text ''\<newline>''],
           opens = 1, closes = 0\<rparr> \<and>
   files (snd (projl aborted_run)) ''out/people_unknown.json'' = None \<and>
   files (snd (projl aborted_run)) ''out/people_unknown.yaml'' = None"
proof -
  from abort_at_undated obtain st1 where
    L: "main_loop (\<lambda>d. []) unknown_unwritable Map.empty ''out'' ''person''
             [birth_1990a, born_1990a, birth_undated] None initial_state = Inr st1"
    and P: "process_elem (\<lambda>d. []) unknown_unwritable Map.empty ''out'' ''person'' undated st1 =
           Inl (OSError ''out/people_unknown.json'', st1)"
    and f: "files st1 ''out/people_1990.json'' =
           Some \<lparr>content = [Text ''[\<newline>'', JsonDump [(''birth'', Scalar ''1990-01-01'')]],
                 opens = 1, closes = 0\<rparr>"
      "files st1 ''out/people_1990.yaml'' =
           Some \<lparr>content = [YamlDump [(''birth'', Scalar ''1990-01-01'')], Text ''\<newline>''],
                 opens = 1, closes = 0\<rparr>"
      "files st1 ''out/people_unknown.json'' = None"
      "files st1 ''out/people_unknown.yaml'' = None"
    by (elim exE conjE)
  have "main_loop (\<lambda>d. []) unknown_unwritable Map.empty ''out'' ''person''
      ([birth_1990a, born_1990a, birth_undated] @ undated # [birth_1990b, born_1990b]) None initial_state =
      Inl (OSError ''out/people_unknown.json'', st1)"
    using L P by (rule main_loop_abort)
  then have "main_loop (\<lambda>d. []) unknown_unwritable Map.empty ''out'' ''person'' scenario None initial_state =
      Inl (OSError ''out/people_unknown.json'', st1)"
    by (simp add: scenario_def)
  then have ar: "aborted_run = Inl (OSError ''out/people_unknown.json'', st1)"
    by (simp add: aborted_run_def main_def)
  have sel: "isl aborted_run" "fst (projl aborted_run) = OSError ''out/people_unknown.json''"
    "snd (projl aborted_run) = st1"
    unfolding ar by simp_all
  show ?thesis unfolding sel(3) using sel(1,2) f by (intro conjI)
qed

theorem failure_aborts_run_witness:
  "(\<exists>st. main (\<lambda>d. []) unknown_unwritable Map.empty ''out'' ''person''
            ([birth_1990a, born_1990a, birth_undated] @ undated # [birth_1990b, born_1990b]) None =
          Inl (OSError ''out/people_unknown.json'', st) \<and>
          tag undated = ''person'' \<and>
          (\<forall>p fl. files st p = Some fl \<longrightarrow> opens fl = 1 \<and> closes fl = 0)) \<and>
   (\<exists>st. main (\<lambda>d. []) (\<lambda>op fs. True) Map.empty ''out'' ''person'' [birth_1990a, born_1990a]
            (Some ParseError) = Inl (ParseError, st) \<and>
          (\<forall>p fl. files st p = Some fl \<longrightarrow> opens fl = 1 \<and> closes fl = 0)) \<and>
   (\<exists>st'. main (\<lambda>d. []) (\<lambda>op fs. True) Map.empty ''out'' ''person'' scenario None = Inr st' \<and>
          files st' ''out/people_1990.json'' =
            Some \<lparr>content = [Text ''[\<newline>'', JsonDump [(''birth'', Scalar ''1990-01-01'')],
                             Text '',\<newline>'', JsonDump [(''birth'', Scalar ''1990-12-31'')],
                             Text ''\<newline>]\<newline>''],
                  opens = 1, closes = 1\<rparr> \<and>
          files st' ''out/people_unknown.yaml'' =
            Some \<lparr>content = [YamlDump [(''birth'', Scalar ''not-a-date'')], Text ''\<newline>''],
                  opens = 1, closes = 1\<rparr> \<and>
          (\<forall>p fl. files st' p = Some fl \<longrightarrow>
             opens fl = 1 \<and> closes fl = 1 \<and>
             p \<in> {''out/people_1990.json'', ''out/people_1990.yaml'',
                   ''out/people_unknown.json'', ''out/people_unknown.yaml''}))"
proof -
  from abort_at_undated obtain st1 where
    h: "main_loop (\<lambda>d. []) unknown_unwritable Map.empty ''out'' ''person''
             [birth_1990a, born_1990a, birth_undated] None initial_state = Inr st1 \<and>
        process_elem (\<lambda>d. []) unknown_unwritable Map.empty ''out'' ''person'' undated st1 =
           Inl (OSError ''out/people_unknown.json'', st1)"
    by blast
  note a = failure_aborts_run [where sd = "\<lambda>d. []" and io_ok = unknown_unwritable
      and m = Map.empty and od = "''out''" and rt = "''person''" and elems = "[]"
      and ys = "[birth_1990b, born_1990b]" and raised = None,
      THEN conjunct1, THEN mp, OF h]
  have 1: "\<exists>st. main (\<lambda>d. []) unknown_unwritable Map.empty ''out'' ''person''
            ([birth_1990a, born_1990a, birth_undated] @ undated # [birth_1990b, born_1990b]) None =
          Inl (OSError ''out/people_unknown.json'', st) \<and>
          tag undated = ''person'' \<and>
          (\<forall>p fl. files st p = Some fl \<longrightarrow> opens fl = 1 \<and> closes fl = 0)"
    by (rule exI [of _ st1], intro conjI, rule a [THEN conjunct1],
        rule a [THEN conjunct2, THEN conjunct1],
        rule a [THEN conjunct2, THEN conjunct2, THEN conjunct2])
  from first_record_routed obtain st where
    L: "main_loop (\<lambda>d. []) (\<lambda>op fs. True) Map.empty ''out'' ''person''
            [birth_1990a, born_1990a] None initial_state = Inr st"
    by blast
  have b: "main (\<lambda>d. []) (\<lambda>op fs. True) Map.empty ''out'' ''person'' [birth_1990a, born_1990a]
            (Some ParseError) = Inl (ParseError, st) \<and>
          (\<forall>p fl. files st p = Some fl \<longrightarrow> opens fl = 1 \<and> closes fl = 0)"
    using L
    by (rule failure_aborts_run [where sd = "\<lambda>d. []" and io_ok = "\<lambda>op fs. True"
      and m = Map.empty and od = "''out''" and rt = "''person''"
      and elems = "[birth_1990a, born_1990a]" and xs = "[]",
      THEN conjunct2, THEN conjunct1, THEN mp])
  then have 2: "\<exists>st. main (\<lambda>d. []) (\<lambda>op fs. True) Map.empty ''out'' ''person'' [birth_1990a, born_1990a]
            (Some ParseError) = Inl (ParseError, st) \<and>
          (\<forall>p fl. files st p = Some fl \<longrightarrow> opens fl = 1 \<and> closes fl = 0)"
    by (rule exI)
  from scenario_run obtain st' where
    M: "main (\<lambda>d. []) (\<lambda>op fs. True) Map.empty ''out'' ''person'' scenario None = Inr st'" ..
  note c = failure_aborts_run [where sd = "\<lambda>d. []" and io_ok = "\<lambda>op fs. True"
      and m = Map.empty and od = "''out''" and rt = "''person''" and elems = scenario
      and xs = "[]" and raised = None and st' = st',
      THEN conjunct2, THEN conjunct2, THEN mp, OF M, unfolded scenario_routed]
  have k1: "''1990'' \<in> fst ` set [(''1990'', [(''birth'', Scalar ''1990-01-01'')]),
      (''unknown'', [(''birth'', Scalar ''not-a-date'')]),
      (''1990'', [(''birth'', Scalar ''1990-12-31'')])]" by simp
  have k2: "''unknown'' \<in> fst ` set [(''1990'', [(''birth'', Scalar ''1990-01-01'')]),
      (''unknown'', [(''birth'', Scalar ''not-a-date'')]),
      (''1990'', [(''birth'', Scalar ''1990-12-31'')])]" by simp
  note files = c [THEN conjunct2, THEN conjunct2, THEN conjunct1]
  have f1: "files st' ''out/people_1990.json'' =
            Some \<lparr>content = [Text ''[\<newline>'', JsonDump [(''birth'', Scalar ''1990-01-01'')],
                             Text '',\<newline>'', JsonDump [(''birth'', Scalar ''1990-12-31'')],
                             Text ''\<newline>]\<newline>''],
                  opens = 1, closes = 1\<rparr>"
    using files [THEN bspec, OF k1, THEN conjunct1]
    by (simp add: json_path_def records_for_def json_array_def)
  have f2: "files st' ''out/people_unknown.yaml'' =
            Some \<lparr>content = [YamlDump [(''birth'', Scalar ''not-a-date'')], Text ''\<newline>''],
                  opens = 1, closes = 1\<rparr>"
    using files [THEN bspec, OF k2, THEN conjunct2]
    by (simp add: yaml_path_def records_for_def yaml_stream_def)
  have f3: "\<forall>p fl. files st' p = Some fl \<longrightarrow>
             opens fl = 1 \<and> closes fl = 1 \<and>
             p \<in> {''out/people_1990.json'', ''out/people_1990.yaml'',
                   ''out/people_unknown.json'', ''out/people_unknown.yaml''}"
  proof (intro allI impI)
    fix p fl assume "files st' p = Some fl"
    from c [THEN conjunct2, THEN conjunct2, THEN conjunct2, THEN spec, THEN spec, THEN mp, OF this]
    show "opens fl = 1 \<and> closes fl = 1 \<and>
             p \<in> {''out/people_1990.json'', ''out/people_1990.yaml'',
                   ''out/people_unknown.json'', ''out/people_unknown.yaml''}"
      by (auto simp: json_path_def yaml_path_def)
  qed
  from M f1 f2 f3 have 3: "\<exists>st'. main (\<lambda>d. []) (\<lambda>op fs. True) Map.empty ''out'' ''person'' scenario None = Inr st' \<and>
          files st' ''out/people_1990.json'' =
            Some \<lparr>content = [Text ''[\<newline>'', JsonDump [(''birth'', Scalar ''1990-01-01'')],
                             Text '',\<newline>'', JsonDump [(''birth'', Scalar ''1990-12-31'')],
                             Text ''\<newline>]\<newline>''],
                  opens = 1, closes = 1\<rparr> \<and>
          files st' ''out/people_unknown.yaml'' =
            Some \<lparr>content = [YamlDump [(''birth'', Scalar ''not-a-date'')], Text ''\<newline>''],
                  opens = 1, closes = 1\<rparr> \<and>
          (\<forall>p fl. files st' p = Some fl \<longrightarrow>
             opens fl = 1 \<and> closes fl = 1 \<and>
             p \<in> {''out/people_1990.json'', ''out/people_1990.yaml'',
                   ''out/people_unknown.json'', ''out/people_unknown.yaml''})"
    by (intro exI [of _ st'] conjI)
  show ?thesis by (rule conjI [OF 1 conjI [OF 2 3]])
qed

theorem output_files_shape_witness:
  "\<exists>st. main (\<lambda>d. []) (\<lambda>op fs. True) Map.empty ''out'' ''person'' scenario None = Inr st \<and>
     files st ''out/people_1990.json'' =
       Some \<lparr>content = [Text ''[\<newline>'', JsonDump [(''birth'', Scalar ''1990-01-01'')],
                        Text '',\<newline>'', JsonDump [(''birth'', Scalar ''1990-12-31'')],
                        Text ''\<newline>]\<newline>''],
             opens = 1, closes = 1\<rparr> \<and>
     files st ''out/people_1990.yaml'' =
       Some \<lparr>content = [YamlDump [(''birth'', Scalar ''1990-01-01'')], Text ''\<newline>'',
                        YamlDump [(''birth'', Scalar ''1990-12-31'')], Text ''\<newline>''],
             opens = 1, closes = 1\<rparr>"
proof -
  from scenario_run obtain st where
    M: "main (\<lambda>d. []) (\<lambda>op fs. True) Map.empty ''out'' ''person'' scenario None = Inr st" ..
  have k: "''1990'' \<in> fst ` set (routed (\<lambda>d. []) Map.empty ''person'' scenario)"
    by (simp add: scenario_routed)
  note th = output_files_shape [OF M k, unfolded scenario_routed]
  have 1: "files st ''out/people_1990.json'' =
       Some \<lparr>content = [Text ''[\<newline>'', JsonDump [(''birth'', Scalar ''1990-01-01'')],
                        Text '',\<newline>'', JsonDump [(''birth'', Scalar ''1990-12-31'')],
                        Text ''\<newline>]\<newline>''],
             opens = 1, closes = 1\<rparr>"
    using th [THEN conjunct1] by (simp add: json_path_def records_for_def json_array_def)
  have 2: "files st ''out/people_1990.yaml'' =
       Some \<lparr>content = [YamlDump [(''birth'', Scalar ''1990-01-01'')], Text ''\<newline>'',
                        YamlDump [(''birth'', Scalar ''1990-12-31'')], Text ''\<newline>''],
             opens = 1, closes = 1\<rparr>"
    using th [THEN conjunct2, THEN conjunct1]
    by (simp add: yaml_path_def records_for_def yaml_stream_def)
  from M 1 2 show ?thesis by (intro exI [of _ st] conjI)
qed

theorem writers_lazy_single_counterexample:
  "isl truncated_run \<and> fst (projl truncated_run) = ParseError \<and>
   map_of (json_writers (snd (projl truncated_run))) ''1990'' =
     Some \<lparr>handle = ''out/people_1990.json'', first = False\<rparr> \<and>
   map_of (yaml_files (snd (projl truncated_run))) ''1990'' = Some ''out/people_1990.yaml'' \<and>
   files (snd (projl truncated_run)) ''out/people_1990.json'' =
     Some \<lparr>content = [Text ''[\<newline>'', JsonDump [(''birth'', Scalar ''1990-01-01'')]],
           opens = 1, closes = 0\<rparr> \<and>
   files (snd (projl truncated_run)) ''out/people_1990.yaml'' =
     Some \<lparr>content = [YamlDump [(''birth'', Scalar ''1990-01-01'')], Text ''\<newline>''],
           opens = 1, closes = 0\<rparr>"
proof -
  from first_record_routed obtain st where
    L: "main_loop (\<lambda>d. []) (\<lambda>op fs. True) Map.empty ''out'' ''person''
            [birth_1990a, born_1990a] None initial_state = Inr st"
    and f: "files st ''out/people_1990.json'' =
           Some \<lparr>content = [Text ''[\<newline>'', JsonDump [(''birth'', Scalar ''1990-01-01'')]],
                 opens = 1, closes = 0\<rparr>"
      "files st ''out/people_1990.yaml'' =
           Some \<lparr>content = [YamlDump [(''birth'', Scalar ''1990-01-01'')], Text ''\<newline>''],
                 opens = 1, closes = 0\<rparr>"
    by (elim exE conjE)
  note inv = loop_state_inv(1-3) [OF L, unfolded scenario_routed]
  have k: "''1990'' \<in> fst ` set [(''1990'', [(''birth'', Scalar ''1990-01-01'')])]" by simp
  have w: "map_of (json_writers st) ''1990'' = Some \<lparr>handle = ''out/people_1990.json'', first = False\<rparr>"
    using json_invD(3) [OF inv(1) k] by (simp add: json_path_def)
  have y: "map_of (yaml_files st) ''1990'' = Some ''out/people_1990.yaml''"
    using yaml_invD(3) [OF inv(2) k] by (simp add: yaml_path_def)
  from main_loop_raised [OF L]
  have tr: "truncated_run = Inl (ParseError, st)"
    by (simp add: truncated_run_def main_def)
  have sel: "isl truncated_run" "fst (projl truncated_run) = ParseError"
    "snd (projl truncated_run) = st"
    unfolding tr by simp_all
  show ?thesis unfolding sel(3) using sel(1,2) w y f by (intro conjI)
qed

theorem writers_lazy_single_witness:
  "(\<exists>stn. main_loop (\<lambda>d. []) (\<lambda>op fs. True) Map.empty ''out'' ''person'' (take 2 scenario) None
            initial_state = Inr stn \<and>
      fst ` set (json_writers stn) = {''1990''} \<and> fst ` set (yaml_files stn) = {''1990''} \<and>
      distinct (map fst (json_writers stn)) \<and> distinct (map fst (yaml_files stn)) \<and>
      map_of (json_writers stn) ''1990'' = Some \<lparr>handle = ''out/people_1990.json'', first = False\<rparr> \<and>
      files stn ''out/people_1990.json'' =
        Some \<lparr>content = [Text ''[\<newline>'', JsonDump [(''birth'', Scalar ''1990-01-01'')]],
              opens = 1, closes = 0\<rparr>) \<and>
   (\<exists>st2. main (\<lambda>d. []) unknown_unwritable Map.empty ''out'' ''person'' scenario None =
            Inl (OSError ''out/people_unknown.json'', st2) \<and>
      (\<forall>p fl. files st2 p = Some fl \<longrightarrow> opens fl = 1 \<and> closes fl = 0)) \<and>
   (\<exists>st'. main (\<lambda>d. []) (\<lambda>op fs. True) Map.empty ''out'' ''person'' scenario None = Inr st' \<and>
      fst ` set (json_writers st') = {''1990'', ''unknown''} \<and>
      fst ` set (yaml_files st') = {''1990'', ''unknown''} \<and>
      distinct (map fst (json_writers st')) \<and> distinct (map fst (yaml_files st')) \<and>
      map_of (json_writers st') ''1990'' = Some \<lparr>handle = ''out/people_1990.json'', first = False\<rparr> \<and>
      map_of (yaml_files st') ''unknown'' = Some ''out/people_unknown.yaml'' \<and>
      files st' ''out/people_1990.json'' =
        Some \<lparr>content = [Text ''[\<newline>'', JsonDump [(''birth'', Scalar ''1990-01-01'')],
                         Text '',\<newline>'', JsonDump [(''birth'', Scalar ''1990-12-31'')],
                         Text ''\<newline>]\<newline>''],
              opens = 1, closes = 1\<rparr> \<and>
      files st' ''out/people_unknown.yaml'' =
        Some \<lparr>content = [YamlDump [(''birth'', Scalar ''not-a-date'')], Text ''\<newline>''],
              opens = 1, closes = 1\<rparr> \<and>
      (\<forall>p fl. files st' p = Some fl \<longrightarrow> opens fl = 1 \<and> closes fl = 1))"
proof -
  note th = writers_lazy_single [where sd = "\<lambda>d. []" and m = Map.empty
      and od = "''out''" and rt = "''person''" and elems = scenario and n = 2]
  from scenario_run obtain st' where
    M: "main (\<lambda>d. []) (\<lambda>op fs. True) Map.empty ''out'' ''person'' scenario None = Inr st'" ..
  note c = th [where io_ok = "\<lambda>op fs. True" and raised = None and st' = st',
      THEN conjunct2, THEN conjunct2, THEN mp, OF M, unfolded scenario_routed]
  from c [THEN conjunct1]
  obtain stn where Ln: "main_loop (\<lambda>d. []) (\<lambda>op fs. True) Map.empty ''out'' ''person'' (take 2 scenario)
        None initial_state = Inr stn" ..
  have r: "routed (\<lambda>d. []) Map.empty ''person'' (take 2 scenario) =
      [(''1990'', [(''birth'', Scalar ''1990-01-01'')])]"
    by (simp add: scenario_def routed_Cons scenario_tags scenario_records scenario_years)
  note a = th [where io_ok = "\<lambda>op fs. True" and stn = stn, THEN conjunct1, THEN mp, OF Ln, unfolded r]
  have k: "''1990'' \<in> fst ` set [(''1990'', [(''birth'', Scalar ''1990-01-01'')])]" by simp
  have a1: "fst ` set (json_writers stn) = {''1990''}" using a [THEN conjunct1] by simp
  have a2: "fst ` set (yaml_files stn) = {''1990''}"
    using a [THEN conjunct2, THEN conjunct1] by simp
  have a3: "distinct (map fst (json_writers stn))"
    using a [THEN conjunct2, THEN conjunct2, THEN conjunct1] .
  have a4: "distinct (map fst (yaml_files stn))"
    using a [THEN conjunct2, THEN conjunct2, THEN conjunct2, THEN conjunct1] .
  note ak = a [THEN conjunct2, THEN conjunct2, THEN conjunct2, THEN conjunct2, THEN conjunct1,
        THEN bspec, OF k]
  have a5: "map_of (json_writers stn) ''1990'' = Some \<lparr>handle = ''out/people_1990.json'', first = False\<rparr>"
    using ak [THEN conjunct1] by simp
  have a6: "files stn ''out/people_1990.json'' =
       Some \<lparr>content = [Text ''[\<newline>'', JsonDump [(''birth'', Scalar ''1990-01-01'')]],
             opens = 1, closes = 0\<rparr>"
    using ak [THEN conjunct2, THEN conjunct2, THEN conjunct1] by (simp add: records_for_def)
  from Ln a1 a2 a3 a4 a5 a6
  have 1: "\<exists>stn. main_loop (\<lambda>d. []) (\<lambda>op fs. True) Map.empty ''out'' ''person'' (take 2 scenario) None
            initial_state = Inr stn \<and>
      fst ` set (json_writers stn) = {''1990''} \<and> fst ` set (yaml_files stn) = {''1990''} \<and>
      distinct (map fst (json_writers stn)) \<and> distinct (map fst (yaml_files stn)) \<and>
      map_of (json_writers stn) ''1990'' = Some \<lparr>handle = ''out/people_1990.json'', first = False\<rparr> \<and>
      files stn ''out/people_1990.json'' =
        Some \<lparr>content = [Text ''[\<newline>'', JsonDump [(''birth'', Scalar ''1990-01-01'')]],
              opens = 1, closes = 0\<rparr>"
    by (intro exI [of _ stn] conjI)
  from abort_at_undated obtain st1 where
    L1: "main_loop (\<lambda>d. []) unknown_unwritable Map.empty ''out'' ''person''
             [birth_1990a, born_1990a, birth_undated] None initial_state = Inr st1"
    and P: "process_elem (\<lambda>d. []) unknown_unwritable Map.empty ''out'' ''person'' undated st1 =
           Inl (OSError ''out/people_unknown.json'', st1)"
    by blast
  have "main_loop (\<lambda>d. []) unknown_unwritable Map.empty ''out'' ''person''
      ([birth_1990a, born_1990a, birth_undated] @ undated # [birth_1990b, born_1990b]) None initial_state =
      Inl (OSError ''out/people_unknown.json'', st1)"
    using L1 P by (rule main_loop_abort)
  then have La: "main_loop (\<lambda>d. []) unknown_unwritable Map.empty ''out'' ''person'' scenario None
      initial_state = Inl (OSError ''out/people_unknown.json'', st1)"
    by (simp add: scenario_def)
  note b = th [where io_ok = unknown_unwritable and raised = None
      and err = "OSError ''out/people_unknown.json''" and ?st2.0 = st1,
      THEN conjunct2, THEN conjunct1, THEN mp, OF La]
  then have 2: "\<exists>st2. main (\<lambda>d. []) unknown_unwritable Map.empty ''out'' ''person'' scenario None =
            Inl (OSError ''out/people_unknown.json'', st2) \<and>
      (\<forall>p fl. files st2 p = Some fl \<longrightarrow> opens fl = 1 \<and> closes fl = 0)"
    by (rule exI)
  have k1: "''1990'' \<in> fst ` set [(''1990'', [(''birth'', Scalar ''1990-01-01'')]),
      (''unknown'', [(''birth'', Scalar ''not-a-date'')]),
      (''1990'', [(''birth'', Scalar ''1990-12-31'')])]" by simp
  have k2: "''unknown'' \<in> fst ` set [(''1990'', [(''birth'', Scalar ''1990-01-01'')]),
      (''unknown'', [(''birth'', Scalar ''not-a-date'')]),
      (''1990'', [(''birth'', Scalar ''1990-12-31'')])]" by simp
  have c1: "fst ` set (json_writers st') = {''1990'', ''unknown''}"
    using c [THEN conjunct2, THEN conjunct1] by auto
  have c2: "fst ` set (yaml_files st') = {''1990'', ''unknown''}"
    using c [THEN conjunct2, THEN conjunct2, THEN conjunct1] by auto
  have c3: "distinct (map fst (json_writers st'))"
    using c [THEN conjunct2, THEN conjunct2, THEN conjunct2, THEN conjunct1] .
  have c4: "distinct (map fst (yaml_files st'))"
    using c [THEN conjunct2, THEN conjunct2, THEN conjunct2, THEN conjunct2, THEN conjunct1] .
  note ck = c [THEN conjunct2, THEN conjunct2, THEN conjunct2, THEN conjunct2, THEN conjunct2,
      THEN conjunct1]
  have c5: "map_of (json_writers st') ''1990'' = Some \<lparr>handle = ''out/people_1990.json'', first = False\<rparr>"
    using ck [THEN bspec, OF k1, THEN conjunct1] by simp
  have c6: "map_of (yaml_files st') ''unknown'' = Some ''out/people_unknown.yaml''"
    using ck [THEN bspec, OF k2, THEN conjunct2, THEN conjunct1] by simp
  have c7: "files st' ''out/people_1990.json'' =
        Some \<lparr>content = [Text ''[\<newline>'', JsonDump [(''birth'', Scalar ''1990-01-01'')],
                         Text '',\<newline>'', JsonDump [(''birth'', Scalar ''1990-12-31'')],
                         Text ''\<newline>]\<newline>''],
              opens = 1, closes = 1\<rparr>"
    using ck [THEN bspec, OF k1, THEN conjunct2, THEN conjunct2, THEN conjunct1]
    by (simp add: records_for_def json_array_def)
  have c8: "files st' ''out/people_unknown.yaml'' =
        Some \<lparr>content = [YamlDump [(''birth'', Scalar ''not-a-date'')], Text ''\<newline>''],
              opens = 1, closes = 1\<rparr>"
    using ck [THEN bspec, OF k2, THEN conjunct2, THEN conjunct2, THEN conjunct2]
    by (simp add: records_for_def yaml_stream_def)
  note c9 = c [THEN conjunct2, THEN conjunct2, THEN conjunct2, THEN conjunct2, THEN conjunct2,
      THEN conjunct2]
  from M c1 c2 c3 c4 c5 c6 c7 c8 c9
  have 3: "\<exists>st'. main (\<lambda>d. []) (\<lambda>op fs. True) Map.empty ''out'' ''person'' scenario None = Inr st' \<and>
      fst ` set (json_writers st') = {''1990'', ''unknown''} \<and>
      fst ` set (yaml_files st') = {''1990'', ''unknown''} \<and>
      distinct (map fst (json_writers st')) \<and> distinct (map fst (yaml_files st')) \<and>
      map_of (json_writers st') ''1990'' = Some \<lparr>handle = ''out/people_1990.json'', first = False\<rparr> \<and>
      map_of (yaml_files st') ''unknown'' = Some ''out/people_unknown.yaml'' \<and>
      files st' ''out/people_1990.json'' =
        Some \<lparr>content = [Text ''[\<newline>'', JsonDump [(''birth'', Scalar ''1990-01-01'')],
                         Text '',\<newline>'', JsonDump [(''birth'', Scalar ''1990-12-31'')],
                         Text ''\<newline>]\<newline>''],
              opens = 1, closes = 1\<rparr> \<and>
      files st' ''out/people_unknown.yaml'' =
        Some \<lparr>content = [YamlDump [(''birth'', Scalar ''not-a-date'')], Text ''\<newline>''],
              opens = 1, closes = 1\<rparr> \<and>
      (\<forall>p fl. files st' p = Some fl \<longrightarrow> opens fl = 1 \<and> closes fl = 1)"
    by (intro exI [of _ st'] conjI)
  show ?thesis by (rule conjI [OF 1 conjI [OF 2 3]])
qed

end
